theory Spec2Isabelle
  imports Complex_Main
begin

section \<open>Numbers, vectors and interpolation helpers\<close>

text \<open>
  The visualisation computes with JavaScript numbers. They are modelled as exact reals:
  rounding, infinities and NaN of IEEE doubles are outside this development, and
  \<open>Math.PI\<close> is the constant \<^term>\<open>pi\<close>. What is proved of a computed value therefore
  holds of the program up to the rounding of doubles. Where a statement would need an
  exact value that rounding does not give, it is not made: \<open>start + (end - start)\<close>,
  which a double computes with two roundings, is not claimed to be \<open>end\<close>.
\<close>

type_synonym vec3 = "real \<times> real \<times> real"
type_synonym vec4 = "real \<times> real \<times> real \<times> real"

text \<open>
  \<open>function lerp(start, end, t) { return start + (end - start) * t; }\<close>. The program
  rounds after the subtraction, the product and the sum. At \<open>t = 0\<close> the product is zero
  and the sum is \<open>start\<close> in doubles as well; at \<open>t = 1\<close> the program returns the rounded
  \<open>start + (end - start)\<close>, for instance \<open>0.09999999999999998\<close> for \<open>lerp(0.7, 0.1, 1)\<close>.
\<close>

definition lerp :: "real \<Rightarrow> real \<Rightarrow> real \<Rightarrow> real" where
  "lerp start fin t = start + (fin - start) * t"

text \<open>
  The two loops of \<open>lerpAngle\<close>:
  \<open>while (diff > Math.PI) diff -= 2 * Math.PI;\<close> and
  \<open>while (diff < -Math.PI) diff += 2 * Math.PI;\<close>
\<close>

function wrapDown :: "real \<Rightarrow> real" where
  "wrapDown diff = (if diff > pi then wrapDown (diff - 2 * pi) else diff)"
  by pat_completeness auto
termination
proof (relation "measure (\<lambda>d. nat \<lceil>d / pi\<rceil>)")
  show "wf (measure (\<lambda>d. nat \<lceil>d / pi\<rceil>))" by simp
next
  fix diff :: real
  assume gt: "pi < diff"
  have eq: "(diff - 2 * pi) / pi = diff / pi - 2"
    by (simp add: field_simps)
  have "1 < diff / pi" using gt pi_gt_zero by (simp add: less_divide_eq)
  then have two: "2 \<le> \<lceil>diff / pi\<rceil>" by linarith
  have "\<lceil>(diff - 2 * pi) / pi\<rceil> = \<lceil>diff / pi\<rceil> - 2"
    unfolding eq by simp
  with two have "nat \<lceil>(diff - 2 * pi) / pi\<rceil> < nat \<lceil>diff / pi\<rceil>"
    by linarith
  then show "(diff - 2 * pi, diff) \<in> measure (\<lambda>d. nat \<lceil>d / pi\<rceil>)"
    unfolding in_measure .
qed

function wrapUp :: "real \<Rightarrow> real" where
  "wrapUp diff = (if diff < - pi then wrapUp (diff + 2 * pi) else diff)"
  by pat_completeness auto
termination
proof (relation "measure (\<lambda>d. nat \<lceil>- d / pi\<rceil>)")
  show "wf (measure (\<lambda>d. nat \<lceil>- d / pi\<rceil>))" by simp
next
  fix diff :: real
  assume lt: "diff < - pi"
  have eq: "- (diff + 2 * pi) / pi = - diff / pi - 2"
    by (simp add: field_simps)
  from lt have "1 * pi < - diff" by simp
  then have "1 < - diff / pi" by (simp only: pos_less_divide_eq [OF pi_gt_zero])
  then have two: "2 \<le> \<lceil>- diff / pi\<rceil>" by linarith
  have "\<lceil>- (diff + 2 * pi) / pi\<rceil> = \<lceil>- diff / pi\<rceil> - 2"
    unfolding eq by simp
  with two have "nat \<lceil>- (diff + 2 * pi) / pi\<rceil> < nat \<lceil>- diff / pi\<rceil>"
    by linarith
  then show "(diff + 2 * pi, diff) \<in> measure (\<lambda>d. nat \<lceil>- d / pi\<rceil>)"
    unfolding in_measure .
qed

declare wrapDown.simps [simp del] wrapUp.simps [simp del]

text \<open>The delta that \<open>lerpAngle\<close> scales by \<open>t\<close>: \<open>end - start\<close> after both loops.\<close>

definition normalizedDiff :: "real \<Rightarrow> real \<Rightarrow> real" where
  "normalizedDiff start fin = wrapUp (wrapDown (fin - start))"

definition lerpAngle :: "real \<Rightarrow> real \<Rightarrow> real \<Rightarrow> real" where
  "lerpAngle start fin t = start + normalizedDiff start fin * t"


text \<open>
  \<open>Math.atan2(y, x)\<close>, the built-in two-argument arctangent, with its case analysis on
  the signs of the arguments written out.
\<close>

definition atan2 :: "real \<Rightarrow> real \<Rightarrow> real" where
  "atan2 y x =
     (if 0 < x then arctan (y / x)
      else if x < 0 then (if 0 \<le> y then arctan (y / x) + pi else arctan (y / x) - pi)
      else if 0 < y then pi / 2
      else if y < 0 then - (pi / 2)
      else 0)"

section \<open>Objects, the object store and the scene\<close>

text \<open>
  Objects are shared by reference between the arrays of the API module (\<open>cars\<close>,
  \<open>trafficLights\<close>, ...) and \<open>scene.objects\<close>, and they are mutated in place. The
  model keeps them in a store indexed by references; the arrays hold references.
\<close>

type_synonym ref = nat

text \<open>
  Modelled from the spec: class \<open>Object3D\<close> (\<open>libs/object3d.js\<close>) is not among the
  sources. The fields are the ones its users read and write; \<open>undefined\<close> is
  \<open>None\<close>. The handles \<open>arrays\<close> and \<open>bufferInfo\<close> are always copied together with
  \<open>vao\<close> and never inspected, so \<open>vao\<close> stands for the three.
\<close>

record object3d =
  oid :: string
  position :: vec3
  rotRad :: vec3
  scale :: vec3
  color :: vec4
  vao :: "nat option"
  oldPosArray :: "vec3 option"
  direction :: "string option"
  futurePos :: "vec3 option"
  state :: "bool option"
  renderPos :: "vec3 option"
  currentRotY :: "real option"
  targetRotY :: "real option"
  diffuseColor :: "vec4 option"
  ambientColor :: "vec4 option"
  specularColor :: "vec4 option"
  shininess :: "real option"
  useVertexColor :: "bool option"

text \<open>
  Modelled from the spec: the constructor \<open>new Object3D(id, position)\<close>, with rotation
  \<open>[0, 0, 0]\<close> and scale \<open>[1, 1, 1]\<close> by default. Its default colour is random; every
  caller below overwrites it, so the constructor of the model takes the colour that the
  caller assigns.
\<close>

definition Object3D :: "string \<Rightarrow> vec3 \<Rightarrow> vec4 \<Rightarrow> object3d" where
  "Object3D ident pos col =
     \<lparr>oid = ident, position = pos, rotRad = (0, 0, 0), scale = (1, 1, 1), color = col,
      vao = None, oldPosArray = None, direction = None, futurePos = None, state = None,
      renderPos = None, currentRotY = None, targetRotY = None, diffuseColor = None,
      ambientColor = None, specularColor = None, shininess = None, useVertexColor = None\<rparr>"

text \<open>
  Modelled from the spec: the getter \<open>posArray\<close> of \<open>Object3D\<close>, the current
  \<open>position\<close> as a fresh array \<open>[x, y, z]\<close>.
\<close>

definition posArray :: "object3d \<Rightarrow> vec3" where
  "posArray obj = position obj"

text \<open>A preloaded model as kept in \<open>carModels\<close>: \<open>{ name, arrays, bufferInfo, vao }\<close>.\<close>

record model =
  mname :: string
  mvao :: nat

text \<open>
  The module-level state of \<open>api_connection_traffic.js\<close> and of the visualisation:
  the five arrays, \<open>scene.objects\<close>, the map \<open>trafficLightSpheres\<close>, the preloaded
  models, the console, the frame clock (\<open>elapsed\<close>, \<open>then\<close>) and the sequence of
  values that \<open>Math.random()\<close> returns, with the number of calls made so far.
\<close>

record world =
  heap :: "ref \<Rightarrow> object3d"
  nextRef :: ref
  cars :: "ref list"
  obstacles :: "ref list"
  trafficLights :: "ref list"
  roads :: "ref list"
  destinations :: "ref list"
  sceneObjects :: "ref list"
  trafficLightSpheres :: "string \<rightharpoonup> ref"
  carModels :: "model list"
  trafficLightModel :: "model option"
  console :: "string list"
  elapsed :: real
  frameThen :: real
  mathRandom :: "nat \<Rightarrow> real"
  randomCalls :: nat

definition emptyWorld :: "model list \<Rightarrow> model option \<Rightarrow> (nat \<Rightarrow> real) \<Rightarrow> world" where
  "emptyWorld cms tlm rnd =
     \<lparr>heap = (\<lambda>_. Object3D [] (0, 0, 0) (0, 0, 0, 0)), nextRef = 0, cars = [], obstacles = [],
      trafficLights = [], roads = [], destinations = [], sceneObjects = [],
      trafficLightSpheres = Map.empty, carModels = cms, trafficLightModel = tlm,
      console = [], elapsed = 0, frameThen = 0, mathRandom = rnd, randomCalls = 0\<rparr>"

text \<open>\<open>new Object3D(...)\<close> followed by assignments: the object is stored at a fresh reference.\<close>

definition alloc :: "object3d \<Rightarrow> world \<Rightarrow> world" where
  "alloc obj w = w\<lparr>heap := (heap w)(nextRef w := obj), nextRef := Suc (nextRef w)\<rparr>"

definition idsOf :: "world \<Rightarrow> ref list \<Rightarrow> string list" where
  "idsOf w rs = map (\<lambda>r. oid (heap w r)) rs"

text \<open>
  Modelled from the spec: class \<open>Scene3D\<close> (\<open>libs/scene3d.js\<close>) is not among the
  sources. \<open>addObject(entity)\<close> appends if the identity is not already present and is a
  no-op on a duplicate; \<open>removeObject(entity)\<close> removes by identity match and is a no-op
  if absent.
\<close>

definition addObject :: "ref \<Rightarrow> world \<Rightarrow> world" where
  "addObject r w =
     (if oid (heap w r) \<in> set (idsOf w (sceneObjects w)) then w
      else w\<lparr>sceneObjects := sceneObjects w @ [r]\<rparr>)"

definition removeObject :: "ref \<Rightarrow> world \<Rightarrow> world" where
  "removeObject r w =
     w\<lparr>sceneObjects := filter (\<lambda>obj. oid (heap w obj) \<noteq> oid (heap w r)) (sceneObjects w)\<rparr>"

section \<open>The API module: snapshots from the server\<close>

text \<open>
  What a \<open>fetch\<close> can give: a rejection (network error, or any exception raised while
  reading the body, before the first mutation), a response that is not \<open>ok\<close>, or an
  \<open>ok\<close> response with its decoded payload.
\<close>

datatype 'a response = Rejected string | NotOk | Ok 'a

record carData =
  cid :: string
  cx :: real
  cy :: real
  cz :: real
  cdirection :: "string option"
  futureX :: real
  futureZ :: real

record lightData =
  lid :: string
  lx :: real
  ly :: real
  lz :: real
  lstate :: bool

record agentData =
  aid :: string
  ax :: real
  ay :: real
  az :: real
  adirection :: "string option"

text \<open>\<open>initTrafficModel\<close>: an \<open>ok\<close> response logs \<open>result.message\<close>, a rejection logs the error.\<close>

definition initTrafficModel :: "string response \<Rightarrow> world \<Rightarrow> world" where
  "initTrafficModel resp w =
     (case resp of
        Rejected error \<Rightarrow> w\<lparr>console := console w @ [error]\<rparr>
      | NotOk \<Rightarrow> w
      | Ok message \<Rightarrow> w\<lparr>console := console w @ [message]\<rparr>)"

text \<open>
  The first loop of \<open>getCars\<close>, \<open>for (let i = cars.length - 1; i >= 0; i--)\<close>: the
  second argument is \<open>i + 1\<close>; a car whose id the server no longer reports is logged and
  spliced out.
\<close>

fun spliceGone :: "string list \<Rightarrow> nat \<Rightarrow> world \<Rightarrow> world" where
  "spliceGone serverCarIds 0 w = w"
| "spliceGone serverCarIds (Suc i) w =
     spliceGone serverCarIds i
       (if oid (heap w (cars w ! i)) \<notin> set serverCarIds
        then w\<lparr>console := console w @
                 [''Car '' @ oid (heap w (cars w ! i)) @ '' reached destination - removing from array''],
               cars := take i (cars w) @ drop (Suc i) (cars w)\<rparr>
        else w)"

text \<open>
  The body of the second loop of \<open>getCars\<close>, for one entry \<open>car\<close> of
  \<open>result.positions\<close>: a tracked car is updated in place, an unknown id gets a new object.
\<close>

definition trackCar :: "carData \<Rightarrow> world \<Rightarrow> world" where
  "trackCar car w =
     (case find (\<lambda>r. oid (heap w r) = cid car) (cars w) of
        Some r \<Rightarrow>
          (let current_car = heap w r in
           w\<lparr>heap := (heap w)(r := current_car
                \<lparr>oldPosArray := Some (posArray current_car),
                 position := (cx car, cy car, cz car),
                 direction := cdirection car,
                 futurePos := Some (futureX car, cy car, futureZ car)\<rparr>)\<rparr>)
      | None \<Rightarrow>
          (let newCar = Object3D (cid car) (cx car, cy car, cz car) (1, 0, 0, 1) in
           (alloc (newCar
                \<lparr>oldPosArray := Some (posArray newCar),
                 direction := cdirection car,
                 futurePos := Some (futureX car, cy car, futureZ car)\<rparr>) w)
             \<lparr>cars := cars w @ [nextRef w]\<rparr>))"

definition getCars :: "carData list response \<Rightarrow> world \<Rightarrow> world" where
  "getCars resp w =
     (case resp of
        Rejected error \<Rightarrow> w\<lparr>console := console w @ [error]\<rparr>
      | NotOk \<Rightarrow> w
      | Ok positions \<Rightarrow>
          fold trackCar positions (spliceGone (map cid positions) (length (cars w)) w))"

text \<open>The static categories: every reported entry is appended as a new object.\<close>

definition pushObstacle :: "agentData \<Rightarrow> world \<Rightarrow> world" where
  "pushObstacle obstacle w =
     (alloc (Object3D (aid obstacle) (ax obstacle, ay obstacle, az obstacle) (0.3, 0.3, 0.3, 1)) w)
       \<lparr>obstacles := obstacles w @ [nextRef w]\<rparr>"

definition getObstacles :: "agentData list response \<Rightarrow> world \<Rightarrow> world" where
  "getObstacles resp w =
     (case resp of
        Rejected error \<Rightarrow> w\<lparr>console := console w @ [error]\<rparr>
      | NotOk \<Rightarrow> w
      | Ok positions \<Rightarrow> fold pushObstacle positions w)"

definition pushRoad :: "agentData \<Rightarrow> world \<Rightarrow> world" where
  "pushRoad road w =
     (alloc ((Object3D (aid road) (ax road, ay road, az road) (0.6, 0.6, 0.6, 1))
               \<lparr>direction := adirection road\<rparr>) w)
       \<lparr>roads := roads w @ [nextRef w]\<rparr>"

definition getRoads :: "agentData list response \<Rightarrow> world \<Rightarrow> world" where
  "getRoads resp w =
     (case resp of
        Rejected error \<Rightarrow> w\<lparr>console := console w @ [error]\<rparr>
      | NotOk \<Rightarrow> w
      | Ok positions \<Rightarrow> fold pushRoad positions w)"

definition pushDestination :: "agentData \<Rightarrow> world \<Rightarrow> world" where
  "pushDestination dest w =
     (alloc (Object3D (aid dest) (ax dest, ay dest, az dest) (0, 1, 0, 1)) w)
       \<lparr>destinations := destinations w @ [nextRef w]\<rparr>"

definition getDestinations :: "agentData list response \<Rightarrow> world \<Rightarrow> world" where
  "getDestinations resp w =
     (case resp of
        Rejected error \<Rightarrow> w\<lparr>console := console w @ [error]\<rparr>
      | NotOk \<Rightarrow> w
      | Ok positions \<Rightarrow> fold pushDestination positions w)"

text \<open>
  \<open>getTrafficLights\<close>: while the array is empty every reported light is appended;
  afterwards a reported light only updates the tracked object with its id, if there is one.
\<close>

definition pushLight :: "lightData \<Rightarrow> world \<Rightarrow> world" where
  "pushLight light w =
     (alloc ((Object3D (lid light) (lx light, ly light, lz light)
                (if lstate light then (0, 1, 0, 1) else (1, 0, 0, 1)))
               \<lparr>state := Some (lstate light)\<rparr>) w)
       \<lparr>trafficLights := trafficLights w @ [nextRef w]\<rparr>"

definition refreshLight :: "lightData \<Rightarrow> world \<Rightarrow> world" where
  "refreshLight light w =
     (case find (\<lambda>r. oid (heap w r) = lid light) (trafficLights w) of
        Some r \<Rightarrow>
          w\<lparr>heap := (heap w)(r := (heap w r)
               \<lparr>color := (if lstate light then (0, 1, 0, 1) else (1, 0, 0, 1)),
                state := Some (lstate light)\<rparr>)\<rparr>
      | None \<Rightarrow> w)"

definition getTrafficLights :: "lightData list response \<Rightarrow> world \<Rightarrow> world" where
  "getTrafficLights resp w =
     (case resp of
        Rejected error \<Rightarrow> w\<lparr>console := console w @ [error]\<rparr>
      | NotOk \<Rightarrow> w
      | Ok positions \<Rightarrow>
          (if length (trafficLights w) = 0 then fold pushLight positions w
           else fold refreshLight positions w))"

text \<open>
  \<open>update\<close>: the three arguments are the outcomes of the fetches of \<open>update\<close>,
  \<open>getCars\<close> and \<open>getTrafficLights\<close>; the last two are only issued after an \<open>ok\<close>
  response to the first.
\<close>

definition update ::
  "unit response \<Rightarrow> carData list response \<Rightarrow> lightData list response \<Rightarrow> world \<Rightarrow> world" where
  "update resp carsResp lightsResp w =
     (case resp of
        Rejected error \<Rightarrow> w\<lparr>console := console w @ [error]\<rparr>
      | NotOk \<Rightarrow> w
      | Ok _ \<Rightarrow> getTrafficLights lightsResp (getCars carsResp w))"


section \<open>The visualisation: reconciliation with the scene and interpolation\<close>

definition DIRECTION_ROTATIONS :: "string \<rightharpoonup> real" where
  "DIRECTION_ROTATIONS =
     [''Up'' \<mapsto> pi, ''Down'' \<mapsto> 0, ''Left'' \<mapsto> pi / 2, ''Right'' \<mapsto> - (pi / 2)]"

definition GLOBAL_SCALE :: real where
  "GLOBAL_SCALE = 1.5"

definition CAR_Y_OFFSET :: real where
  "CAR_Y_OFFSET = 0.30"

definition CAR_Z_OFFSET :: real where
  "CAR_Z_OFFSET = - 0.15"

definition duration :: real where
  "duration = 500"

text \<open>
  \<open>updateCarRotation(car)\<close>. An array is truthy, so \<open>car.oldPosArray && car.posArray\<close>
  holds exactly when \<open>oldPosArray\<close> is defined; \<open>car.direction && ...\<close> needs a
  non-empty string that is a key of the table.
\<close>

definition updateCarRotation :: "object3d \<Rightarrow> object3d" where
  "updateCarRotation car =
     (case oldPosArray car of
        Some oldPos \<Rightarrow>
          (let dx = fst (posArray car) - fst oldPos;
               dz = snd (snd (posArray car)) - snd (snd oldPos)
           in if \<bar>dx\<bar> > 0.01 \<or> \<bar>dz\<bar> > 0.01
              then car\<lparr>targetRotY := Some (atan2 dx dz)\<rparr>
              else car)
      | None \<Rightarrow>
          (case direction car of
             Some d \<Rightarrow>
               (if d \<noteq> [] \<and> d \<in> dom DIRECTION_ROTATIONS
                then car\<lparr>targetRotY := DIRECTION_ROTATIONS d\<rparr>
                else car)
           | None \<Rightarrow> car))"

text \<open>
  \<open>carModels[Math.floor(Math.random() * carModels.length)]\<close>: the next value of
  \<open>Math.random()\<close> is consumed. \<open>Math.random()\<close> lies in \<open>[0, 1)\<close>, which keeps the
  index in range; \<open>randomInRange\<close> states this of the sequence.
\<close>

definition randomInRange :: "world \<Rightarrow> bool" where
  "randomInRange w = (\<forall>n. 0 \<le> mathRandom w n \<and> mathRandom w n < 1)"

definition randomCarModel :: "world \<Rightarrow> model" where
  "randomCarModel w =
     carModels w ! nat \<lfloor>mathRandom w (randomCalls w) * real (length (carModels w))\<rfloor>"

text \<open>
  \<open>carVAOs.has(obj.vao)\<close> for \<open>carVAOs = new Set(carModels.map(m => m.vao))\<close>, and the
  filter \<open>obj.id && carVAOs.has(obj.vao)\<close> of \<open>updateCars\<close> (the empty string is falsy).
\<close>

definition hasCarVAO :: "world \<Rightarrow> ref \<Rightarrow> bool" where
  "hasCarVAO w obj =
     (case vao (heap w obj) of None \<Rightarrow> False | Some v \<Rightarrow> v \<in> set (map mvao (carModels w)))"

definition carsInScene :: "world \<Rightarrow> ref list" where
  "carsInScene w = filter (\<lambda>obj. oid (heap w obj) \<noteq> [] \<and> hasCarVAO w obj) (sceneObjects w)"

text \<open>The body of the first loop of \<open>updateCars\<close>, for one element of \<open>carsInScene\<close>.\<close>

definition retireCar :: "string list \<Rightarrow> ref \<Rightarrow> world \<Rightarrow> world" where
  "retireCar currentCarIds carInScene w =
     (if oid (heap w carInScene) \<notin> set currentCarIds then removeObject carInScene w else w)"

text \<open>The body of the second loop of \<open>updateCars\<close>, for one element \<open>car\<close> of \<open>cars\<close>.\<close>

definition placeCar :: "ref \<Rightarrow> world \<Rightarrow> world" where
  "placeCar car w =
     (let w1 =
        (if vao (heap w car) = None \<and> length (carModels w) > 0
         then addObject car
                (w\<lparr>heap := (heap w)(car := (heap w car)
                      \<lparr>vao := Some (mvao (randomCarModel w)),
                       scale := (0.002 * GLOBAL_SCALE, 0.002 * GLOBAL_SCALE, 0.0015 * GLOBAL_SCALE),
                       currentRotY := Some 0,
                       targetRotY := Some 0\<rparr>),
                    randomCalls := Suc (randomCalls w)\<rparr>)
         else w)
      in w1\<lparr>heap := (heap w1)(car := updateCarRotation (heap w1 car))\<rparr>)"

definition updateCars :: "world \<Rightarrow> world" where
  "updateCars w =
     (let currentCarIds = idsOf w (cars w)
      in fold placeCar (cars w) (fold (retireCar currentCarIds) (carsInScene w) w))"

text \<open>\<open>interpolateCars(fract)\<close>: the loop body on one car, and the loop.\<close>

definition interpolateCar :: "real \<Rightarrow> object3d \<Rightarrow> object3d" where
  "interpolateCar fract car =
     (case oldPosArray car of
        None \<Rightarrow> car
      | Some oldPos \<Rightarrow>
          (let currentPos = posArray car;
               interpX = lerp (fst oldPos) (fst currentPos) fract;
               interpZ = lerp (snd (snd oldPos)) (snd (snd currentPos)) fract;
               interpY = fst (snd currentPos);
               car1 = car\<lparr>renderPos := Some (interpX, interpY + CAR_Y_OFFSET, interpZ + CAR_Z_OFFSET)\<rparr>
           in case targetRotY car1 of
                None \<Rightarrow> car1
              | Some target \<Rightarrow>
                  (let rotY = lerpAngle (case currentRotY car1 of None \<Rightarrow> 0 | Some c \<Rightarrow> c)
                                target (min (fract * 2) 1.0)
                   in car1\<lparr>currentRotY := Some rotY,
                           rotRad := (fst (rotRad car1), rotY, snd (snd (rotRad car1)))\<rparr>)))"

definition interpolateCarAt :: "real \<Rightarrow> ref \<Rightarrow> world \<Rightarrow> world" where
  "interpolateCarAt fract car w = w\<lparr>heap := (heap w)(car := interpolateCar fract (heap w car))\<rparr>"

definition interpolateCars :: "real \<Rightarrow> world \<Rightarrow> world" where
  "interpolateCars fract w = fold (interpolateCarAt fract) (cars w) w"

text \<open>\<open>updateTrafficLightSpheres\<close>: the sphere registered under the light's id shows its state.\<close>

definition showLight :: "ref \<Rightarrow> world \<Rightarrow> world" where
  "showLight light w =
     (case trafficLightSpheres w (oid (heap w light)) of
        None \<Rightarrow> w
      | Some sphere \<Rightarrow>
          (let on = (state (heap w light) = Some True) in
           w\<lparr>heap := (heap w)(sphere := (heap w sphere)
                \<lparr>color := (if on then (0.2, 1.0, 0.2, 1.0) else (1.0, 0.2, 0.1, 1.0)),
                 diffuseColor := Some (if on then (0.3, 1.2, 0.3, 1.0) else (1.2, 0.3, 0.15, 1.0)),
                 ambientColor := Some (if on then (0.1, 0.5, 0.1, 1.0) else (0.5, 0.1, 0.05, 1.0))\<rparr>)\<rparr>))"

definition updateTrafficLightSpheres :: "world \<Rightarrow> world" where
  "updateTrafficLightSpheres w = fold showLight (trafficLights w) w"

text \<open>
  The loop of \<open>setupObjects\<close> over \<open>roads\<close>: every road is drawn as a flat base cube
  and joins the scene.
\<close>

definition setupRoad :: "nat \<Rightarrow> ref \<Rightarrow> world \<Rightarrow> world" where
  "setupRoad baseCube road w =
     addObject road
       (w\<lparr>heap := (heap w)(road := (heap w road)
            \<lparr>vao := Some baseCube,
             scale := (0.5 * GLOBAL_SCALE, 0.1 * GLOBAL_SCALE, 0.5 * GLOBAL_SCALE),
             color := (0.25, 0.25, 0.27, 1.0),
             diffuseColor := Some (0.2, 0.2, 0.22, 1.0),
             specularColor := Some (0.05, 0.05, 0.05, 1.0),
             shininess := Some 4,
             useVertexColor := Some False\<rparr>)\<rparr>)"

definition setupRoads :: "nat \<Rightarrow> world \<Rightarrow> world" where
  "setupRoads baseCube w = fold (setupRoad baseCube) (roads w) w"

text \<open>
  The loop of \<open>setupObjects\<close> over \<open>trafficLights\<close>: a road tile under the light, the
  light itself with the preloaded model or the base cube, and its indicator sphere,
  registered in \<open>trafficLightSpheres\<close>. \<open>baseCube\<close> is the VAO handle of the base cube.
\<close>

definition setupLight :: "nat \<Rightarrow> ref \<Rightarrow> world \<Rightarrow> world" where
  "setupLight baseCube light w =
     (let l = heap w light;
          roadUnderLight = (Object3D (''road_light_'' @ oid l) (position l) (0.4, 0.4, 0.4, 1.0))
             \<lparr>vao := Some baseCube,
              scale := (0.5 * GLOBAL_SCALE, 0.1 * GLOBAL_SCALE, 0.5 * GLOBAL_SCALE),
              useVertexColor := Some False\<rparr>;
          w1 = addObject (nextRef w) (alloc roadUnderLight w);
          l1 = (case trafficLightModel w1 of
                  Some m \<Rightarrow> l\<lparr>vao := Some (mvao m),
                               scale := (0.005 * GLOBAL_SCALE, 0.005 * GLOBAL_SCALE, 0.005 * GLOBAL_SCALE),
                               position := (fst (position l), 2.5, snd (snd (position l)))\<rparr>
                | None \<Rightarrow> l\<lparr>vao := Some baseCube,
                             scale := (0.3 * GLOBAL_SCALE, 0.6 * GLOBAL_SCALE, 0.3 * GLOBAL_SCALE)\<rparr>);
          w2 = addObject light (w1\<lparr>heap := (heap w1)(light := l1)\<rparr>);
          on = (state l1 = Some True);
          lightSphere = (Object3D (''light_sphere_'' @ oid l1)
                           (fst (position l1), fst (snd (position l1)) + 0.8, snd (snd (position l1)))
                           (if on then (0.2, 1.0, 0.2, 1.0) else (1.0, 0.2, 0.1, 1.0)))
             \<lparr>vao := Some baseCube,
              scale := (0.18 * GLOBAL_SCALE, 0.18 * GLOBAL_SCALE, 0.18 * GLOBAL_SCALE),
              diffuseColor := Some (if on then (0.3, 1.2, 0.3, 1.0) else (1.2, 0.3, 0.15, 1.0)),
              specularColor := Some (1.0, 1.0, 1.0, 1.0),
              shininess := Some 64,
              ambientColor := Some (if on then (0.1, 0.5, 0.1, 1.0) else (0.5, 0.1, 0.05, 1.0)),
              useVertexColor := Some False\<rparr>;
          w3 = addObject (nextRef w2) (alloc lightSphere w2)
      in w3\<lparr>trafficLightSpheres := (trafficLightSpheres w3)(oid l1 \<mapsto> nextRef w2)\<rparr>)"

definition setupLights :: "nat \<Rightarrow> world \<Rightarrow> world" where
  "setupLights baseCube w = fold (setupLight baseCube) (trafficLights w) w"

text \<open>
  The loop of \<open>setupObjects\<close> over \<open>cars\<close>: a random car model if one was preloaded,
  the base cube otherwise; in both cases the car joins the scene.
\<close>

definition setupCar :: "nat \<Rightarrow> ref \<Rightarrow> world \<Rightarrow> world" where
  "setupCar baseCube car w =
     addObject car
       (if length (carModels w) > 0
        then (let c = heap w car in
              w\<lparr>heap := (heap w)(car := updateCarRotation (c
                     \<lparr>vao := Some (mvao (randomCarModel w)),
                      scale := (0.002 * GLOBAL_SCALE, 0.002 * GLOBAL_SCALE, 0.0015 * GLOBAL_SCALE),
                      renderPos := Some (fst (position c),
                                         fst (snd (position c)) + CAR_Y_OFFSET,
                                         snd (snd (position c)) + CAR_Z_OFFSET),
                      currentRotY := Some 0,
                      targetRotY := Some 0\<rparr>)),
                 randomCalls := Suc (randomCalls w)\<rparr>)
        else w\<lparr>heap := (heap w)(car := (heap w car)
                  \<lparr>vao := Some baseCube,
                   scale := (0.4 * GLOBAL_SCALE, 0.4 * GLOBAL_SCALE, 0.4 * GLOBAL_SCALE)\<rparr>)\<rparr>)"

definition setupCars :: "nat \<Rightarrow> world \<Rightarrow> world" where
  "setupCars baseCube w = fold (setupCar baseCube) (cars w) w"

text \<open>
  \<open>drawScene\<close> at clock reading \<open>now\<close> (\<open>Date.now()\<close>): the frame clock, the
  interpolation fraction, and, once the poll interval has elapsed, the poll with the
  outcomes of its three fetches. Issuing the draw calls changes none of this state.
\<close>

definition frameElapsed :: "real \<Rightarrow> world \<Rightarrow> real" where
  "frameElapsed now w = elapsed w + (now - frameThen w)"

definition frameFract :: "real \<Rightarrow> world \<Rightarrow> real" where
  "frameFract now w = min 1.0 (frameElapsed now w / duration)"

definition drawScene ::
  "real \<Rightarrow> unit response \<Rightarrow> carData list response \<Rightarrow> lightData list response \<Rightarrow> world \<Rightarrow> world" where
  "drawScene now resp carsResp lightsResp w =
     (let fract = frameFract now w;
          w1 = interpolateCars fract (w\<lparr>elapsed := frameElapsed now w, frameThen := now\<rparr>)
      in if elapsed w1 \<ge> duration
         then updateTrafficLightSpheres
                (updateCars (update resp carsResp lightsResp (w1\<lparr>elapsed := 0\<rparr>)))
         else w1)"


section \<open>The model loader and its cache\<close>

































section \<open>Concrete scenarios\<close>

text \<open>
  Two preloaded car models, a reported car on the ground plane, and the state before the
  first snapshot. The scenarios below are the inputs at which the theorems are instantiated.
\<close>

definition demoModels :: "model list" where
  "demoModels = [\<lparr>mname = ''redCarBlendobj'', mvao = 1\<rparr>, \<lparr>mname = ''ClassicCarBlend'', mvao = 2\<rparr>]"

definition carAt :: "string \<Rightarrow> real \<Rightarrow> real \<Rightarrow> string option \<Rightarrow> carData" where
  "carAt ident x z d = \<lparr>cid = ident, cx = x, cy = 0, cz = z, cdirection = d, futureX = x, futureZ = z\<rparr>"

definition startWorld :: world where
  "startWorld = emptyWorld demoModels None (\<lambda>_. 0)"

text \<open>Car \<open>c1\<close> reported at the origin and, one poll later, one cell further along x.\<close>

definition twoSamples :: world where
  "twoSamples =
     getCars (Ok [carAt ''c1'' 1 0 None]) (getCars (Ok [carAt ''c1'' 0 0 (Some ''Up'')]) startWorld)"

text \<open>
  Car \<open>c1\<close> set up at the origin, then seen to move one cell along x, then reported at
  the same cell again with heading \<open>Up\<close>.
\<close>

definition stationaryCar :: world where
  "stationaryCar =
     updateCars (getCars (Ok [carAt ''c1'' 1 0 (Some ''Up'')])
       (updateCars (getCars (Ok [carAt ''c1'' 1 0 (Some ''Right'')])
          (setupCars 0 (getCars (Ok [carAt ''c1'' 0 0 (Some ''Right'')]) startWorld)))))"

section \<open>Predicates and scenarios used in the statements\<close>

definition carsAllocated :: "world \<Rightarrow> bool" where
  "carsAllocated w = (\<forall>r \<in> set (cars w). r < nextRef w)"

definition failed :: "'a response \<Rightarrow> bool" where
  "failed resp = (case resp of Ok _ \<Rightarrow> False | _ \<Rightarrow> True)"

definition logged :: "'a response \<Rightarrow> string list" where
  "logged resp = (case resp of Rejected error \<Rightarrow> [error] | _ \<Rightarrow> [])"

definition sameEntities :: "world \<Rightarrow> world \<Rightarrow> bool" where
  "sameEntities w v =
     (heap v = heap w \<and> nextRef v = nextRef w \<and> cars v = cars w \<and> obstacles v = obstacles w
      \<and> trafficLights v = trafficLights w \<and> roads v = roads w \<and> destinations v = destinations w
      \<and> sceneObjects v = sceneObjects w \<and> trafficLightSpheres v = trafficLightSpheres w)"

definition lastReport :: "carData list \<Rightarrow> string \<Rightarrow> carData" where
  "lastReport positions i = last (filter (\<lambda>c. cid c = i) positions)"

definition carsDistinct :: "world \<Rightarrow> bool" where
  "carsDistinct w = (carsAllocated w \<and> distinct (idsOf w (cars w)))"

definition reportedAs :: "carData \<Rightarrow> object3d \<Rightarrow> bool" where
  "reportedAs c obj =
     (oid obj = cid c \<and> position obj = (cx c, cy c, cz c) \<and> direction obj = cdirection c
      \<and> futurePos obj = Some (futureX c, cy c, futureZ c))"

definition dupSnapshot :: "carData list" where
  "dupSnapshot = [carAt ''c1'' 0 0 (Some ''Up''), carAt ''c2'' 3 3 None, carAt ''c1'' 5 7 (Some ''Left'')]"

definition lightShows :: "bool \<Rightarrow> object3d \<Rightarrow> bool" where
  "lightShows on obj =
     (state obj = Some on \<and> color obj = (if on then (0, 1, 0, 1) else (1, 0, 0, 1)))"

definition sphereShows :: "bool \<Rightarrow> object3d \<Rightarrow> bool" where
  "sphereShows on obj =
     (color obj = (if on then (0.2, 1.0, 0.2, 1.0) else (1.0, 0.2, 0.1, 1.0))
      \<and> diffuseColor obj = Some (if on then (0.3, 1.2, 0.3, 1.0) else (1.2, 0.3, 0.15, 1.0))
      \<and> ambientColor obj = Some (if on then (0.1, 0.5, 0.1, 1.0) else (0.5, 0.1, 0.05, 1.0)))"

definition onlyLightFieldsChange :: "world \<Rightarrow> world \<Rightarrow> bool" where
  "onlyLightFieldsChange w v =
     (v\<lparr>heap := heap w, console := console w\<rparr> = w
      \<and> (\<forall>r. heap v r = (heap w r)\<lparr>color := color (heap v r), state := state (heap v r)\<rparr>)
      \<and> (\<forall>r. r \<notin> set (trafficLights w) \<longrightarrow> heap v r = heap w r))"



definition lightAt :: "string \<Rightarrow> real \<Rightarrow> real \<Rightarrow> bool \<Rightarrow> lightData" where
  "lightAt ident x z on = \<lparr>lid = ident, lx = x, ly = 0, lz = z, lstate = on\<rparr>"

definition litWorld :: world where
  "litWorld =
     setupLights 0 (getTrafficLights (Ok [lightAt ''L1'' 2 2 True, lightAt ''L2'' 4 4 False]) startWorld)"

definition sceneTracksCars :: "world \<Rightarrow> bool" where
  "sceneTracksCars w =
     (\<forall>obj \<in> set (sceneObjects w). oid (heap w obj) \<noteq> [] \<and> hasCarVAO w obj
        \<longrightarrow> oid (heap w obj) \<in> set (idsOf w (cars w)))"

definition carsMeshed :: "world \<Rightarrow> bool" where
  "carsMeshed w = (length (carModels w) > 0 \<longrightarrow> (\<forall>car \<in> set (cars w). vao (heap w car) \<noteq> None))"

definition retiredIds :: "world \<Rightarrow> string list \<Rightarrow> ref list \<Rightarrow> string set" where
  "retiredIds w ids cs = (\<lambda>c. oid (heap w c)) ` {c \<in> set cs. oid (heap w c) \<notin> set ids}"

definition twoCars :: "carData list" where
  "twoCars = [carAt ''c1'' 0 0 (Some ''Up''), carAt ''c2'' 3 3 None]"

definition onceApplied :: world where
  "onceApplied = updateCars (getCars (Ok twoCars) startWorld)"

definition twiceApplied :: world where
  "twiceApplied = updateCars (getCars (Ok twoCars) onceApplied)"

definition sceneAllocated :: "world \<Rightarrow> bool" where
  "sceneAllocated w = (\<forall>obj \<in> set (sceneObjects w). obj < nextRef w)"

definition meshedCarsShown :: "world \<Rightarrow> bool" where
  "meshedCarsShown w =
     (\<forall>car \<in> set (cars w). vao (heap w car) \<noteq> None
        \<longrightarrow> oid (heap w car) \<in> set (idsOf w (sceneObjects w)))"

definition sceneInvariant :: "world \<Rightarrow> bool" where
  "sceneInvariant w =
     (carsAllocated w \<and> sceneAllocated w \<and> distinct (idsOf w (sceneObjects w)) \<and> meshedCarsShown w)"

definition cityStart :: world where
  "cityStart =
     setupRoads 0 (getRoads (Ok [\<lparr>aid = ''r1'', ax = 0, ay = 0, az = 0, adirection = Some ''Right''\<rparr>])
        startWorld)"

definition cityOnce :: world where
  "cityOnce = updateCars (getCars (Ok twoCars) cityStart)"

definition cityTwice :: world where
  "cityTwice =
     updateCars (getCars (Ok [carAt ''c2'' 3 4 None, carAt ''c3'' 0 0 (Some ''Left'')]) cityOnce)"

definition fallbackStart :: world where
  "fallbackStart = setupCars 0 (getCars (Ok [carAt ''c1'' 0 0 (Some ''Up'')]) (emptyWorld [] None (\<lambda>_. 0)))"

definition fallbackGone :: world where
  "fallbackGone = updateCars (getCars (Ok []) fallbackStart)"

definition fallbackNew :: world where
  "fallbackNew =
     updateCars (getCars (Ok [carAt ''c1'' 0 1 (Some ''Up''), carAt ''c2'' 3 3 None]) fallbackStart)"

definition firstSample :: world where
  "firstSample = setupCars 0 (getCars (Ok [carAt ''c1'' 0 0 (Some ''Right'')]) startWorld)"

definition movedCar :: world where
  "movedCar = updateCars (getCars (Ok [carAt ''c1'' 1 0 (Some ''Right'')]) firstSample)"

definition newCar :: world where
  "newCar = updateCars (getCars (Ok [carAt ''c2'' 0 0 (Some ''Up'')]) startWorld)"


definition lightFields :: "object3d \<Rightarrow> string \<times> bool option \<times> vec4 \<times> vec4 option \<times> vec4 option" where
  "lightFields obj = (oid obj, state obj, color obj, diffuseColor obj, ambientColor obj)"

definition keepsLights :: "world \<Rightarrow> world \<Rightarrow> bool" where
  "keepsLights w v =
     (trafficLights v = trafficLights w \<and> trafficLightSpheres v = trafficLightSpheres w
      \<and> nextRef w \<le> nextRef v
      \<and> (\<forall>r < nextRef w. lightFields (heap v r) = lightFields (heap w r)))"
























section \<open>Angle interpolation\<close>

lemma wrapDown_id: "diff \<le> pi \<Longrightarrow> wrapDown diff = diff"
  by (subst wrapDown.simps) simp

lemma wrapUp_id: "- pi \<le> diff \<Longrightarrow> wrapUp diff = diff"
  by (subst wrapUp.simps) simp

lemma wrapDown_step: "pi < diff \<Longrightarrow> wrapDown diff = wrapDown (diff - 2 * pi)"
  by (subst wrapDown.simps) simp

lemma wrapUp_step: "diff < - pi \<Longrightarrow> wrapUp diff = wrapUp (diff + 2 * pi)"
  by (subst wrapUp.simps) simp

lemma wrapDown_range:
  "wrapDown diff \<le> pi \<and> (pi < diff \<longrightarrow> - pi < wrapDown diff)
    \<and> (\<exists>k::int. wrapDown diff = diff + 2 * pi * of_int k)"
proof (induction diff rule: wrapDown.induct)
  case (1 diff)
  show ?case
  proof (cases "pi < diff")
    case True
    from 1 [OF True] obtain k :: int where
      le: "wrapDown (diff - 2 * pi) \<le> pi" and
      gt: "pi < diff - 2 * pi \<longrightarrow> - pi < wrapDown (diff - 2 * pi)" and
      k: "wrapDown (diff - 2 * pi) = diff - 2 * pi + 2 * pi * of_int k"
      by blast
    have lower: "- pi < wrapDown (diff - 2 * pi)"
    proof (cases "pi < diff - 2 * pi")
      case True
      with gt show ?thesis by simp
    next
      case False
      then have "wrapDown (diff - 2 * pi) = diff - 2 * pi" by (simp add: wrapDown_id)
      with True show ?thesis by simp
    qed
    have "wrapDown (diff - 2 * pi) = diff + 2 * pi * of_int (k - 1)"
      using k by (simp add: algebra_simps)
    then have "\<exists>j::int. wrapDown (diff - 2 * pi) = diff + 2 * pi * of_int j" ..
    with True le lower show ?thesis by (simp add: wrapDown_step)
  next
    case False
    then have "wrapDown diff = diff" by (simp add: wrapDown_id)
    moreover have "diff = diff + 2 * pi * of_int 0" by simp
    ultimately show ?thesis using False by (metis not_less)
  qed
qed

lemma wrapUp_range:
  "- pi \<le> wrapUp diff \<and> (diff < - pi \<longrightarrow> wrapUp diff < pi)
    \<and> (\<exists>k::int. wrapUp diff = diff + 2 * pi * of_int k)"
proof (induction diff rule: wrapUp.induct)
  case (1 diff)
  show ?case
  proof (cases "diff < - pi")
    case True
    from 1 [OF True] obtain k :: int where
      ge: "- pi \<le> wrapUp (diff + 2 * pi)" and
      lt: "diff + 2 * pi < - pi \<longrightarrow> wrapUp (diff + 2 * pi) < pi" and
      k: "wrapUp (diff + 2 * pi) = diff + 2 * pi + 2 * pi * of_int k"
      by blast
    have upper: "wrapUp (diff + 2 * pi) < pi"
    proof (cases "diff + 2 * pi < - pi")
      case True
      with lt show ?thesis by simp
    next
      case False
      then have "wrapUp (diff + 2 * pi) = diff + 2 * pi" by (simp add: wrapUp_id)
      with True show ?thesis by simp
    qed
    have "wrapUp (diff + 2 * pi) = diff + 2 * pi * of_int (k + 1)"
      using k by (simp add: algebra_simps)
    then have "\<exists>j::int. wrapUp (diff + 2 * pi) = diff + 2 * pi * of_int j" ..
    with True ge upper show ?thesis by (simp add: wrapUp_step)
  next
    case False
    then have "wrapUp diff = diff" by (simp add: wrapUp_id)
    moreover have "diff = diff + 2 * pi * of_int 0" by simp
    ultimately show ?thesis using False by (metis not_less)
  qed
qed

lemma normalizedDiff_range:
  "- pi \<le> normalizedDiff start fin \<and> normalizedDiff start fin \<le> pi"
proof -
  let ?d = "wrapDown (fin - start)"
  have d: "?d \<le> pi" using wrapDown_range by blast
  show ?thesis
  proof (cases "?d < - pi")
    case True
    then have "wrapUp ?d < pi" using wrapUp_range by blast
    moreover have "- pi \<le> wrapUp ?d" using wrapUp_range by blast
    ultimately show ?thesis by (simp add: normalizedDiff_def)
  next
    case False
    then have "wrapUp ?d = ?d" by (simp add: wrapUp_id)
    with d False show ?thesis by (simp add: normalizedDiff_def)
  qed
qed

lemma normalizedDiff_congruent:
  "\<exists>k::int. normalizedDiff start fin = fin - start + 2 * pi * of_int k"
proof -
  obtain j :: int where j: "wrapDown (fin - start) = fin - start + 2 * pi * of_int j"
    using wrapDown_range by blast
  obtain i :: int where i: "wrapUp (wrapDown (fin - start)) = wrapDown (fin - start) + 2 * pi * of_int i"
    using wrapUp_range by blast
  have "normalizedDiff start fin = (fin - start + 2 * pi * of_int j) + 2 * pi * of_int i"
    unfolding normalizedDiff_def by (simp only: i, simp only: j)
  also have "\<dots> = fin - start + 2 * pi * of_int (j + i)"
    by (simp add: algebra_simps)
  finally show ?thesis ..
qed

lemma pi_ge_3: "3 \<le> pi"
proof -
  have "sin (pi / 6) \<le> pi / 6" by (intro sin_x_le_x) simp
  then show ?thesis by (simp add: sin_30)
qed

lemma normalizedDiff_3_m3: "normalizedDiff 3 (- 3) = 2 * pi - 6"
proof -
  have a: "wrapDown (- 6) = - 6"
    using pi_ge_two by (intro wrapDown_id) simp
  have b: "wrapUp (- 6) = wrapUp (- 6 + 2 * pi)"
    using pi_less_4 by (intro wrapUp_step) simp
  have c: "wrapUp (- 6 + 2 * pi) = - 6 + 2 * pi"
    using pi_ge_two by (intro wrapUp_id) simp
  have "normalizedDiff 3 (- 3) = wrapUp (wrapDown (- 6))"
    by (simp add: normalizedDiff_def)
  also have "\<dots> = - 6 + 2 * pi" by (simp only: a b c)
  finally show ?thesis by simp
qed

text \<open>
  C3 (as amended). \<open>lerpAngle\<close> scales the delta \<open>end - start\<close> after normalising it
  into the closed interval from \<open>-\<pi>\<close> to \<open>\<pi>\<close> by whole turns; for \<open>t\<close> between 0 and 1
  the result is therefore never further than \<open>\<pi>\<close> from the start angle. From 3.0 towards
  -3.0 the result is \<open>3 + (2\<pi> - 6) t\<close>, which stays at or above 3 and so passes through
  \<open>\<pi>\<close>, not through 0.
\<close>

theorem lerpAngle_short_path:
  assumes "0 \<le> t" and "t \<le> 1"
  shows "- pi \<le> normalizedDiff start fin \<and> normalizedDiff start fin \<le> pi
       \<and> (\<exists>k::int. normalizedDiff start fin = fin - start + 2 * pi * of_int k)
       \<and> \<bar>lerpAngle start fin t - start\<bar> \<le> pi
       \<and> lerpAngle 3 (- 3) t = 3 + (2 * pi - 6) * t
       \<and> 3 \<le> lerpAngle 3 (- 3) t"
proof -
  have "\<bar>normalizedDiff start fin\<bar> \<le> pi"
    using normalizedDiff_range [of start fin] by (simp add: abs_le_iff)
  moreover have "\<bar>normalizedDiff start fin * t\<bar> \<le> \<bar>normalizedDiff start fin\<bar> * 1"
    unfolding abs_mult using assms by (intro mult_left_mono) simp_all
  ultimately have step: "\<bar>lerpAngle start fin t - start\<bar> \<le> pi"
    by (simp add: lerpAngle_def)
  have ex: "lerpAngle 3 (- 3) t = 3 + (2 * pi - 6) * t"
    by (simp add: lerpAngle_def normalizedDiff_3_m3)
  have "0 \<le> (2 * pi - 6) * t"
    using pi_ge_3 assms by (intro mult_nonneg_nonneg) simp_all
  with ex have "3 \<le> lerpAngle 3 (- 3) t" by simp
  with step ex normalizedDiff_range [of start fin] normalizedDiff_congruent [of start fin]
  show ?thesis by blast
qed

theorem lerpAngle_short_path_witness:
  "(0::real) \<le> 1 / 2 \<and> (1 / 2 :: real) \<le> 1
   \<and> \<bar>lerpAngle 3 (- 3) (1 / 2) - 3\<bar> \<le> pi \<and> lerpAngle 3 (- 3) (1 / 2) = pi"
proof -
  have lo: "(0::real) \<le> 1 / 2" and hi: "(1 / 2 :: real) \<le> 1" by simp_all
  note inst = lerpAngle_short_path [OF lo hi, of 3 "- 3"]
  from inst have "lerpAngle 3 (- 3) (1 / 2) = 3 + (2 * pi - 6) * (1 / 2)" by blast
  then have mid: "lerpAngle 3 (- 3) (1 / 2) = pi" by (simp add: algebra_simps)
  from inst have "\<bar>lerpAngle 3 (- 3) (1 / 2) - 3\<bar> \<le> pi" by blast
  with lo hi mid show ?thesis by blast
qed

text \<open>
  C3 as stated fails at the lower end of the interval: from \<open>\<pi>\<close> towards 0 the delta
  is exactly \<open>-\<pi>\<close>, neither loop changes it, and it is not in the half-open interval.
\<close>

theorem lerpAngle_half_open_counterexample:
  "normalizedDiff pi 0 = - pi \<and> normalizedDiff pi 0 \<notin> {- pi <.. pi}"
proof -
  have "wrapDown (0 - pi) = 0 - pi" by (intro wrapDown_id) simp
  moreover have "wrapUp (0 - pi) = 0 - pi" by (intro wrapUp_id) simp
  ultimately show ?thesis by (simp add: normalizedDiff_def)
qed

section \<open>Position interpolation\<close>

lemma interpolateCar_keeps:
  "oldPosArray (interpolateCar f c) = oldPosArray c \<and> position (interpolateCar f c) = position c"
  by (simp add: interpolateCar_def Let_def split: option.splits)

lemma interpolateCar_renderPos:
  assumes "oldPosArray c = Some (ox, oy, oz)" "position c = (px, py, pz)"
  shows "renderPos (interpolateCar f c) = Some (lerp ox px f, py + CAR_Y_OFFSET, lerp oz pz f + CAR_Z_OFFSET)"
  using assms by (simp add: interpolateCar_def posArray_def Let_def split: option.splits)

lemma interpolate_fold_other:
  "car \<notin> set rs \<Longrightarrow>
   heap (fold (interpolateCarAt f) rs w) car = heap w car"
  by (induction rs arbitrary: w) (auto simp: interpolateCarAt_def)

lemma interpolate_fold_renderPos:
  assumes "car \<in> set rs" "oldPosArray (heap w car) = Some (ox, oy, oz)" "position (heap w car) = (px, py, pz)"
  shows "renderPos (heap (fold (interpolateCarAt f) rs w) car)
         = Some (lerp ox px f, py + CAR_Y_OFFSET, lerp oz pz f + CAR_Z_OFFSET)"
  using assms
proof (induction rs arbitrary: w)
  case Nil
  then show ?case by simp
next
  case (Cons r rs)
  let ?w1 = "interpolateCarAt f r w"
  have old: "oldPosArray (heap ?w1 car) = Some (ox, oy, oz)"
    using Cons.prems(2) by (auto simp: interpolateCar_keeps interpolateCarAt_def)
  have pos: "position (heap ?w1 car) = (px, py, pz)"
    using Cons.prems(3) by (auto simp: interpolateCar_keeps interpolateCarAt_def)
  show ?case
  proof (cases "car \<in> set rs")
    case True
    from Cons.IH [OF True old pos] show ?thesis by simp
  next
    case False
    with Cons.prems(1) have eq: "car = r" by simp
    have "renderPos (heap ?w1 car) = Some (lerp ox px f, py + CAR_Y_OFFSET, lerp oz pz f + CAR_Z_OFFSET)"
      using eq Cons.prems(2,3) by (simp add: interpolateCar_renderPos interpolateCarAt_def)
    with False show ?thesis by (simp add: interpolate_fold_other)
  qed
qed

text \<open>
  C2 (as amended). The fraction \<open>min(1, elapsed / duration)\<close> never exceeds 1 and is
  non-negative whenever the accumulated frame time is. For every tracked car with a
  previous sample, \<open>interpolateCars\<close> sets the render position to
  \<open>old + (current - old) * f\<close> in x and in z, z shifted by \<open>CAR_Z_OFFSET\<close>, and to the
  current y shifted by \<open>CAR_Y_OFFSET\<close>. At fraction 0 these are the previous x and the
  previous z shifted by \<open>CAR_Z_OFFSET\<close>. Nothing is stated about fraction 1 beyond the
  formula: there the program computes \<open>old + (current - old)\<close>, which rounding can leave
  next to the current coordinate.
\<close>

theorem interpolateCars_render_position:
  assumes "car \<in> set (cars w)"
    and "oldPosArray (heap w car) = Some (ox, oy, oz)"
    and "position (heap w car) = (px, py, pz)"
  shows "frameFract now w \<le> 1
       \<and> (0 \<le> frameElapsed now w \<longrightarrow> 0 \<le> frameFract now w)
       \<and> renderPos (heap (interpolateCars f w) car)
           = Some (ox + (px - ox) * f, py + CAR_Y_OFFSET, oz + (pz - oz) * f + CAR_Z_OFFSET)
       \<and> renderPos (heap (interpolateCars 0 w) car) = Some (ox, py + CAR_Y_OFFSET, oz + CAR_Z_OFFSET)"
proof -
  have "frameFract now w \<le> 1" by (simp add: frameFract_def)
  moreover have "0 \<le> frameElapsed now w \<longrightarrow> 0 \<le> frameFract now w"
    by (simp add: frameFract_def duration_def)
  moreover have "renderPos (heap (interpolateCars f w) car)
      = Some (ox + (px - ox) * f, py + CAR_Y_OFFSET, oz + (pz - oz) * f + CAR_Z_OFFSET)"
    unfolding interpolateCars_def using interpolate_fold_renderPos [OF assms]
    by (simp add: lerp_def)
  moreover have "renderPos (heap (interpolateCars 0 w) car) = Some (ox, py + CAR_Y_OFFSET, oz + CAR_Z_OFFSET)"
    unfolding interpolateCars_def using interpolate_fold_renderPos [OF assms, of 0]
    by (simp add: lerp_def)
  ultimately show ?thesis by blast
qed

lemma twoSamples_facts:
  "cars twoSamples = [0] \<and> oldPosArray (heap twoSamples 0) = Some (0, 0, 0)
   \<and> position (heap twoSamples 0) = (1, 0, 0)"
  by (simp add: twoSamples_def startWorld_def emptyWorld_def getCars_def trackCar_def carAt_def
      Object3D_def posArray_def alloc_def)

theorem interpolateCars_render_position_witness:
  "0 \<in> set (cars twoSamples) \<and> oldPosArray (heap twoSamples 0) = Some (0, 0, 0)
   \<and> position (heap twoSamples 0) = (1, 0, 0)
   \<and> frameFract 250 twoSamples = 1 / 2
   \<and> renderPos (heap (interpolateCars (1 / 2) twoSamples) 0) = Some (1 / 2, 0.3, - 0.15)
   \<and> renderPos (heap (interpolateCars 0 twoSamples) 0) = Some (0, 0.3, - 0.15)"
proof -
  have mem: "0 \<in> set (cars twoSamples)" using twoSamples_facts by simp
  have old: "oldPosArray (heap twoSamples 0) = Some (0, 0, 0)" using twoSamples_facts by simp
  have pos: "position (heap twoSamples 0) = (1, 0, 0)" using twoSamples_facts by simp
  have fr: "frameFract 250 twoSamples = 1 / 2"
    by (simp add: frameFract_def frameElapsed_def duration_def twoSamples_def startWorld_def
        emptyWorld_def getCars_def trackCar_def alloc_def Let_def split: option.splits)
  from interpolateCars_render_position [OF mem old pos, of 250 "1 / 2"] mem old pos fr
  show ?thesis by (simp add: CAR_Y_OFFSET_def CAR_Z_OFFSET_def)
qed

text \<open>
  C2 as stated fails twice. At fraction 0 the render position of the car of
  \<open>twoSamples\<close> is its previous x with the two offsets applied to y and z, not the
  previous sample. And the fraction has no lower clamp: after a frame at clock reading 500,
  a frame at clock reading 0 computes the fraction -1.
\<close>

theorem interpolateCars_exact_counterexample:
  "oldPosArray (heap twoSamples 0) = Some (0, 0, 0)
   \<and> renderPos (heap (interpolateCars 0 twoSamples) 0) = Some (0, 0.3, - 0.15)
   \<and> renderPos (heap (interpolateCars 0 twoSamples) 0) \<noteq> oldPosArray (heap twoSamples 0)
   \<and> frameFract 0 (drawScene 500 NotOk NotOk NotOk startWorld) = - 1"
proof -
  have a: "renderPos (heap (interpolateCars 0 twoSamples) 0) = Some (0, 0.3, - 0.15)"
    using twoSamples_facts
    by (simp add: interpolateCars_def interpolateCarAt_def interpolateCar_def posArray_def lerp_def
        CAR_Y_OFFSET_def CAR_Z_OFFSET_def Let_def split: option.splits)
  have b: "frameFract 0 (drawScene 500 NotOk NotOk NotOk startWorld) = - 1"
    by (simp add: drawScene_def frameFract_def frameElapsed_def duration_def interpolateCars_def
        startWorld_def emptyWorld_def update_def updateCars_def updateTrafficLightSpheres_def
        carsInScene_def idsOf_def Let_def)
  show ?thesis using a b twoSamples_facts by simp
qed

section \<open>Target yaw\<close>

lemma updateCarRotation_cases:
  assumes "oldPosArray car = Some (ox, oy, oz)" and "position car = (px, py, pz)"
  shows "\<bar>px - ox\<bar> > 0.01 \<or> \<bar>pz - oz\<bar> > 0.01 \<Longrightarrow>
           targetRotY (updateCarRotation car) = Some (atan2 (px - ox) (pz - oz))"
    and "\<not> (\<bar>px - ox\<bar> > 0.01 \<or> \<bar>pz - oz\<bar> > 0.01) \<Longrightarrow> updateCarRotation car = car"
  using assms by (simp_all add: updateCarRotation_def posArray_def Let_def)

lemma updateCarRotation_samples:
  "oldPosArray (updateCarRotation car) = oldPosArray car"
  "position (updateCarRotation car) = position car"
  "direction (updateCarRotation car) = direction car"
  by (simp_all add: updateCarRotation_def Let_def split: option.splits)

section \<open>The \<open>cars\<close> array after \<open>getCars\<close>\<close>

subsection \<open>The first loop\<close>

lemma spliceGone_frame:
  "\<exists>cs lg. spliceGone ids n w = w\<lparr>cars := cs, console := lg\<rparr>"
proof (induction n arbitrary: w)
  case 0
  have "w = w\<lparr>cars := cars w, console := console w\<rparr>" by simp
  then show ?case by (metis spliceGone.simps(1))
next
  case (Suc n)
  show ?case
  proof (cases "oid (heap w (cars w ! n)) \<in> set ids")
    case True
    with Suc.IH [of w] show ?thesis by simp
  next
    case False
    let ?w1 = "w\<lparr>console := console w @
        [''Car '' @ oid (heap w (cars w ! n)) @ '' reached destination - removing from array''],
        cars := take n (cars w) @ drop (Suc n) (cars w)\<rparr>"
    from Suc.IH [of ?w1] obtain cs lg where "spliceGone ids n ?w1 = ?w1\<lparr>cars := cs, console := lg\<rparr>"
      by blast
    then have "spliceGone ids (Suc n) w = w\<lparr>cars := cs, console := lg\<rparr>"
      using False by simp
    then show ?thesis by blast
  qed
qed

lemma spliceGone_heap [simp]: "heap (spliceGone ids n w) = heap w"
  using spliceGone_frame [of ids n w] by auto

lemma spliceGone_nextRef [simp]: "nextRef (spliceGone ids n w) = nextRef w"
  using spliceGone_frame [of ids n w] by auto

lemma spliceGone_sceneObjects [simp]: "sceneObjects (spliceGone ids n w) = sceneObjects w"
  using spliceGone_frame [of ids n w] by auto

lemma spliceGone_cars:
  "n \<le> length (cars w) \<Longrightarrow>
   cars (spliceGone ids n w)
     = filter (\<lambda>r. oid (heap w r) \<in> set ids) (take n (cars w)) @ drop n (cars w)"
proof (induction n arbitrary: w)
  case 0
  then show ?case by simp
next
  case (Suc n)
  let ?cs = "cars w"
  from Suc.prems have n: "n < length ?cs" by simp
  have split: "take (Suc n) ?cs = take n ?cs @ [?cs ! n]"
    using n by (simp add: take_Suc_conv_app_nth)
  have dropn: "drop n ?cs = ?cs ! n # drop (Suc n) ?cs"
    using n by (simp add: Cons_nth_drop_Suc)
  show ?case
  proof (cases "oid (heap w (?cs ! n)) \<in> set ids")
    case True
    then have "cars (spliceGone ids (Suc n) w) = cars (spliceGone ids n w)" by simp
    also have "\<dots> = filter (\<lambda>r. oid (heap w r) \<in> set ids) (take n ?cs) @ drop n ?cs"
      using n by (intro Suc.IH) simp
    finally show ?thesis using True by (simp add: split dropn)
  next
    case False
    let ?w1 = "w\<lparr>console := console w @
        [''Car '' @ oid (heap w (?cs ! n)) @ '' reached destination - removing from array''],
        cars := take n ?cs @ drop (Suc n) ?cs\<rparr>"
    have len: "n \<le> length (cars ?w1)" using n by simp
    from False have "cars (spliceGone ids (Suc n) w) = cars (spliceGone ids n ?w1)" by simp
    also have "\<dots> = filter (\<lambda>r. oid (heap ?w1 r) \<in> set ids) (take n (cars ?w1)) @ drop n (cars ?w1)"
      by (rule Suc.IH [OF len])
    also have "\<dots> = filter (\<lambda>r. oid (heap w r) \<in> set ids) (take n ?cs) @ drop (Suc n) ?cs"
      using n by simp
    finally show ?thesis using False by (simp add: split)
  qed
qed

lemma spliceGone_all:
  "cars (spliceGone ids (length (cars w)) w) = filter (\<lambda>r. oid (heap w r) \<in> set ids) (cars w)"
  by (simp add: spliceGone_cars)

lemma spliceGone_console_same:
  "\<forall>r \<in> set (cars w). oid (heap w r) \<in> set ids \<Longrightarrow> n \<le> length (cars w) \<Longrightarrow> spliceGone ids n w = w"
  by (induction n arbitrary: w) auto

subsection \<open>The second loop\<close>

lemma trackCar_frame:
  "trackCar car w = w\<lparr>heap := heap (trackCar car w), nextRef := nextRef (trackCar car w),
       cars := cars (trackCar car w)\<rparr>"
  by (simp add: trackCar_def alloc_def Let_def split: option.splits)

lemma trackCar_sceneObjects [simp]: "sceneObjects (trackCar car w) = sceneObjects w"
  by (subst trackCar_frame) simp

lemma trackCar_console [simp]: "console (trackCar car w) = console w"
  by (subst trackCar_frame) simp

lemma trackCar_found:
  assumes "find (\<lambda>r. oid (heap w r) = cid car) (cars w) = Some r"
  shows "cars (trackCar car w) = cars w" "nextRef (trackCar car w) = nextRef w"
    "oid (heap (trackCar car w) x) = oid (heap w x)"
    "vao (heap (trackCar car w) x) = vao (heap w x)"
    "x \<noteq> r \<Longrightarrow> heap (trackCar car w) x = heap w x"
    "position (heap (trackCar car w) r) = (cx car, cy car, cz car)"
    "direction (heap (trackCar car w) r) = cdirection car"
    "futurePos (heap (trackCar car w) r) = Some (futureX car, cy car, futureZ car)"
  using assms by (simp_all add: trackCar_def Let_def)

lemma trackCar_new:
  assumes "find (\<lambda>r. oid (heap w r) = cid car) (cars w) = None"
  shows "cars (trackCar car w) = cars w @ [nextRef w]" "nextRef (trackCar car w) = Suc (nextRef w)"
    "x \<noteq> nextRef w \<Longrightarrow> heap (trackCar car w) x = heap w x"
    "oid (heap (trackCar car w) (nextRef w)) = cid car"
    "vao (heap (trackCar car w) (nextRef w)) = None"
    "position (heap (trackCar car w) (nextRef w)) = (cx car, cy car, cz car)"
    "direction (heap (trackCar car w) (nextRef w)) = cdirection car"
    "futurePos (heap (trackCar car w) (nextRef w)) = Some (futureX car, cy car, futureZ car)"
  using assms by (simp_all add: trackCar_def Let_def alloc_def Object3D_def)

lemma find_cases:
  obtains (found) r where "find P xs = Some r" "r \<in> set xs" "P r"
  | (missing) "find P xs = None" "\<forall>x \<in> set xs. \<not> P x"
proof (cases "find P xs")
  case None
  then show ?thesis using missing by (simp add: find_None_iff)
next
  case (Some r)
  then have "r \<in> set xs \<and> P r" by (auto simp: find_Some_iff)
  with Some show ?thesis using found by blast
qed

lemma trackCar_allocated:
  assumes "carsAllocated w"
  shows "carsAllocated (trackCar car w)"
proof (cases rule: find_cases [of "\<lambda>r. oid (heap w r) = cid car" "cars w"])
  case (found r)
  with assms show ?thesis by (simp add: carsAllocated_def trackCar_found)
next
  case missing
  with assms show ?thesis by (auto simp: carsAllocated_def trackCar_new)
qed

lemma trackCar_ids:
  assumes "carsAllocated w"
  shows "set (idsOf (trackCar car w) (cars (trackCar car w))) = insert (cid car) (set (idsOf w (cars w)))"
proof (cases rule: find_cases [of "\<lambda>r. oid (heap w r) = cid car" "cars w"])
  case (found r)
  then have "cid car \<in> set (idsOf w (cars w))" by (force simp: idsOf_def)
  with found show ?thesis by (auto simp: idsOf_def trackCar_found)
next
  case missing
  have "idsOf (trackCar car w) (cars (trackCar car w)) = idsOf w (cars w) @ [cid car]"
    using missing assms by (auto simp: idsOf_def trackCar_new carsAllocated_def)
  then show ?thesis by simp
qed

lemma fold_trackCar_allocated:
  "carsAllocated w \<Longrightarrow> carsAllocated (fold trackCar ps w)"
  by (induction ps arbitrary: w) (simp_all add: trackCar_allocated)

lemma fold_trackCar_ids:
  "carsAllocated w \<Longrightarrow>
   set (idsOf (fold trackCar ps w) (cars (fold trackCar ps w))) = cid ` set ps \<union> set (idsOf w (cars w))"
  by (induction ps arbitrary: w) (auto simp: trackCar_allocated trackCar_ids)

lemma spliceGone_allocated:
  "carsAllocated w \<Longrightarrow> carsAllocated (spliceGone ids (length (cars w)) w)"
  by (simp add: carsAllocated_def spliceGone_all)

lemma getCars_ids:
  assumes "carsAllocated w"
  shows "set (idsOf (getCars (Ok ps) w) (cars (getCars (Ok ps) w))) = cid ` set ps"
proof -
  let ?s = "spliceGone (map cid ps) (length (cars w)) w"
  have "set (idsOf ?s (cars ?s)) \<subseteq> cid ` set ps"
    by (auto simp: idsOf_def spliceGone_all)
  moreover have "set (idsOf (fold trackCar ps ?s) (cars (fold trackCar ps ?s)))
      = cid ` set ps \<union> set (idsOf ?s (cars ?s))"
    by (intro fold_trackCar_ids spliceGone_allocated assms)
  ultimately show ?thesis by (auto simp: getCars_def)
qed

section \<open>Failed network calls\<close>

lemma failed_cases: "failed resp \<Longrightarrow> (\<exists>e. resp = Rejected e) \<or> resp = NotOk"
  by (cases resp) (simp_all add: failed_def)

text \<open>
  C8 (as amended). A failed network call, rejected or answered with a response that is
  not \<open>ok\<close>, changes nothing but the console: the object store, the five arrays, the
  scene and the sphere map stay as they were, and the function returns normally. A
  rejection appends the error to the console; a response that is not \<open>ok\<close> appends
  nothing. This holds for \<open>initTrafficModel\<close>, every category loader and \<open>update\<close>,
  and for an \<open>update\<close> answered \<open>ok\<close> whose two snapshot calls then fail.
\<close>

theorem failed_calls_keep_state:
  assumes "failed ri" and "failed rc" and "failed ro" and "failed rl" and "failed rr"
    and "failed rd" and "failed ru"
  shows "initTrafficModel ri w = w\<lparr>console := console w @ logged ri\<rparr>
       \<and> getCars rc w = w\<lparr>console := console w @ logged rc\<rparr>
       \<and> getObstacles ro w = w\<lparr>console := console w @ logged ro\<rparr>
       \<and> getTrafficLights rl w = w\<lparr>console := console w @ logged rl\<rparr>
       \<and> getRoads rr w = w\<lparr>console := console w @ logged rr\<rparr>
       \<and> getDestinations rd w = w\<lparr>console := console w @ logged rd\<rparr>
       \<and> update ru carsResp lightsResp w = w\<lparr>console := console w @ logged ru\<rparr>
       \<and> update (Ok ()) rc rl w = w\<lparr>console := console w @ logged rc @ logged rl\<rparr>
       \<and> sameEntities w (initTrafficModel ri w) \<and> sameEntities w (getCars rc w)
       \<and> sameEntities w (getObstacles ro w) \<and> sameEntities w (getTrafficLights rl w)
       \<and> sameEntities w (getRoads rr w) \<and> sameEntities w (getDestinations rd w)
       \<and> sameEntities w (update ru carsResp lightsResp w) \<and> sameEntities w (update (Ok ()) rc rl w)"
proof -
  have i: "initTrafficModel ri w = w\<lparr>console := console w @ logged ri\<rparr>"
    using failed_cases [OF assms(1)] by (auto simp: initTrafficModel_def logged_def)
  have c: "getCars rc w = w\<lparr>console := console w @ logged rc\<rparr>" for w
    using failed_cases [OF assms(2)] by (auto simp: getCars_def logged_def)
  have ob: "getObstacles ro w = w\<lparr>console := console w @ logged ro\<rparr>"
    using failed_cases [OF assms(3)] by (auto simp: getObstacles_def logged_def)
  have l: "getTrafficLights rl w = w\<lparr>console := console w @ logged rl\<rparr>" for w
    using failed_cases [OF assms(4)] by (auto simp: getTrafficLights_def logged_def)
  have r: "getRoads rr w = w\<lparr>console := console w @ logged rr\<rparr>"
    using failed_cases [OF assms(5)] by (auto simp: getRoads_def logged_def)
  have d: "getDestinations rd w = w\<lparr>console := console w @ logged rd\<rparr>"
    using failed_cases [OF assms(6)] by (auto simp: getDestinations_def logged_def)
  have u: "update ru carsResp lightsResp w = w\<lparr>console := console w @ logged ru\<rparr>"
    using failed_cases [OF assms(7)] by (auto simp: update_def logged_def)
  have u2: "update (Ok ()) rc rl w = w\<lparr>console := console w @ logged rc @ logged rl\<rparr>"
    by (simp add: update_def c l)
  have same: "sameEntities w (w\<lparr>console := lg\<rparr>)" for lg
    by (simp add: sameEntities_def)
  show ?thesis
    unfolding i c ob l r d u u2 using same by simp
qed

theorem failed_calls_keep_state_witness:
  "failed (Rejected ''down'' :: string response) \<and> failed (Rejected ''down'' :: carData list response)
   \<and> failed (NotOk :: agentData list response) \<and> failed (NotOk :: lightData list response)
   \<and> failed (Rejected ''down'' :: unit response)
   \<and> getCars (Rejected ''down'') twoSamples = twoSamples\<lparr>console := [''down'']\<rparr>
   \<and> cars (getCars (Rejected ''down'') twoSamples) = [0]
   \<and> getTrafficLights NotOk twoSamples = twoSamples
   \<and> update (Ok ()) (Rejected ''down'') NotOk twoSamples = twoSamples\<lparr>console := [''down'']\<rparr>
   \<and> sameEntities twoSamples (update (Rejected ''down'') NotOk NotOk twoSamples)"
proof -
  have f1: "failed (Rejected ''down'' :: string response)"
    and f2: "failed (Rejected ''down'' :: carData list response)"
    and f3: "failed (NotOk :: agentData list response)"
    and f4: "failed (NotOk :: lightData list response)"
    and f5: "failed (Rejected ''down'' :: unit response)"
    by (simp_all add: failed_def)
  have cons: "console twoSamples = []"
    by (simp add: twoSamples_def startWorld_def emptyWorld_def getCars_def trackCar_def carAt_def
        Object3D_def posArray_def alloc_def)
  note inst = failed_calls_keep_state [OF f1 f2 f3 f4 f3 f3 f5, of twoSamples NotOk NotOk]
  from inst have a: "getCars (Rejected ''down'') twoSamples = twoSamples\<lparr>console := [''down'']\<rparr>"
    by (simp add: logged_def cons)
  from inst have b: "getTrafficLights NotOk twoSamples = twoSamples"
    by (simp add: logged_def)
  from inst have c: "update (Ok ()) (Rejected ''down'') NotOk twoSamples = twoSamples\<lparr>console := [''down'']\<rparr>"
    by (simp add: logged_def cons)
  from inst have d: "sameEntities twoSamples (update (Rejected ''down'') NotOk NotOk twoSamples)"
    by blast
  from a twoSamples_facts have e: "cars (getCars (Rejected ''down'') twoSamples) = [0]" by simp
  from f1 f2 f3 f4 f5 a b c d e show ?thesis by blast
qed

text \<open>
  C8 as stated fails for a response that is not \<open>ok\<close>: the call is a failed call, yet
  the console is the same before and after, so nothing was logged.
\<close>

theorem failed_not_logged_counterexample:
  "failed (NotOk :: carData list response)
   \<and> console (getCars NotOk twoSamples) = console twoSamples
   \<and> console (update NotOk NotOk NotOk twoSamples) = console twoSamples"
  by (simp add: failed_def getCars_def update_def)

section \<open>An identity reported twice in one snapshot\<close>

lemma trackCar_distinct:
  assumes "carsDistinct w"
  shows "carsDistinct (trackCar car w)"
proof (cases rule: find_cases [of "\<lambda>r. oid (heap w r) = cid car" "cars w"])
  case (found r)
  then have "idsOf (trackCar car w) (cars (trackCar car w)) = idsOf w (cars w)"
    by (simp add: idsOf_def trackCar_found)
  with assms trackCar_allocated [of w car] show ?thesis by (simp add: carsDistinct_def)
next
  case missing
  have "idsOf (trackCar car w) (cars (trackCar car w)) = idsOf w (cars w) @ [cid car]"
    using missing assms by (auto simp: idsOf_def trackCar_new carsAllocated_def carsDistinct_def)
  moreover have "cid car \<notin> set (idsOf w (cars w))"
    using missing by (auto simp: idsOf_def)
  ultimately show ?thesis
    using assms trackCar_allocated [of w car] by (simp add: carsDistinct_def)
qed

lemma fold_trackCar_distinct:
  "carsDistinct w \<Longrightarrow> carsDistinct (fold trackCar ps w)"
  by (induction ps arbitrary: w) (simp_all add: trackCar_distinct)

lemma spliceGone_distinct:
  assumes "carsDistinct w"
  shows "carsDistinct (spliceGone ids (length (cars w)) w)"
proof -
  have "idsOf w (filter (\<lambda>r. oid (heap w r) \<in> set ids) (cars w))
      = filter (\<lambda>i. i \<in> set ids) (idsOf w (cars w))"
    by (simp add: idsOf_def filter_map comp_def)
  with assms show ?thesis
    using spliceGone_allocated [of w ids]
    by (simp add: carsDistinct_def idsOf_def spliceGone_all)
qed

lemma getCars_distinct:
  "carsDistinct w \<Longrightarrow> carsDistinct (getCars resp w)"
  by (cases resp)
     (simp_all add: getCars_def fold_trackCar_distinct spliceGone_distinct,
      simp add: carsDistinct_def carsAllocated_def idsOf_def)

lemma trackCar_reported:
  assumes "carsDistinct w"
  shows "\<exists>r \<in> set (cars (trackCar car w)). reportedAs car (heap (trackCar car w) r)"
proof (cases rule: find_cases [of "\<lambda>r. oid (heap w r) = cid car" "cars w"])
  case (found r)
  then show ?thesis by (auto simp: reportedAs_def trackCar_found)
next
  case missing
  then show ?thesis by (auto simp: reportedAs_def trackCar_new)
qed

lemma trackCar_other:
  assumes "carsDistinct w" and "r \<in> set (cars w)" and "oid (heap w r) \<noteq> cid car"
  shows "r \<in> set (cars (trackCar car w)) \<and> heap (trackCar car w) r = heap w r"
proof (cases rule: find_cases [of "\<lambda>r. oid (heap w r) = cid car" "cars w"])
  case (found r')
  with assms have "r \<noteq> r'" by auto
  with found assms show ?thesis by (simp add: trackCar_found)
next
  case missing
  from assms have "r \<noteq> nextRef w" by (auto simp: carsDistinct_def carsAllocated_def)
  with missing assms show ?thesis by (simp add: trackCar_new)
qed

lemma fold_trackCar_last:
  assumes "carsDistinct w" and "i \<in> cid ` set ps"
  shows "\<exists>r \<in> set (cars (fold trackCar ps w)). reportedAs (lastReport ps i) (heap (fold trackCar ps w) r)"
  using assms(2)
proof (induction ps rule: rev_induct)
  case Nil
  then show ?case by simp
next
  case (snoc p ps)
  let ?v = "fold trackCar ps w"
  have dist: "carsDistinct ?v" using assms(1) by (rule fold_trackCar_distinct)
  show ?case
  proof (cases "cid p = i")
    case True
    then have "lastReport (ps @ [p]) i = p" by (simp add: lastReport_def)
    with trackCar_reported [OF dist, of p] show ?thesis by simp
  next
    case False
    with snoc.prems have mem: "i \<in> cid ` set ps" by auto
    from False have same: "lastReport (ps @ [p]) i = lastReport ps i" by (simp add: lastReport_def)
    from snoc.IH [OF mem] obtain r where r: "r \<in> set (cars ?v)"
      and rep: "reportedAs (lastReport ps i) (heap ?v r)" by blast
    have "filter (\<lambda>c. cid c = i) ps \<noteq> []" using mem by (auto simp: filter_empty_conv)
    then have "last (filter (\<lambda>c. cid c = i) ps) \<in> set (filter (\<lambda>c. cid c = i) ps)"
      by (rule last_in_set)
    then have "cid (lastReport ps i) = i" by (simp add: lastReport_def)
    with rep False have "oid (heap ?v r) \<noteq> cid p" by (simp add: reportedAs_def)
    from trackCar_other [OF dist r this]
    have "r \<in> set (cars (trackCar p ?v))" and "heap (trackCar p ?v) r = heap ?v r" by simp_all
    with rep have "\<exists>r \<in> set (cars (trackCar p ?v)). reportedAs (lastReport ps i) (heap (trackCar p ?v) r)"
      by (intro bexI [of _ r]) simp_all
    with same show ?thesis by simp
  qed
qed

lemma distinct_filter_single:
  assumes "distinct (map f xs)" and "r \<in> set xs" and "f r = i"
  shows "filter (\<lambda>x. f x = i) xs = [r]"
  using assms
proof (induction xs)
  case Nil
  then show ?case by simp
next
  case (Cons x xs)
  show ?case
  proof (cases "x = r")
    case True
    with Cons.prems have "f r \<notin> f ` set xs" by simp
    with Cons.prems(3) have "\<forall>y \<in> set xs. f y \<noteq> i" by (metis imageI)
    then have "filter (\<lambda>x. f x = i) xs = []" by (simp add: filter_empty_conv)
    with True Cons.prems show ?thesis by simp
  next
    case False
    with Cons.prems have "r \<in> set xs" "f x \<noteq> i" "distinct (map f xs)" by auto
    with Cons.IH Cons.prems(3) show ?thesis by simp
  qed
qed

text \<open>
  C9. When the tracked cars have pairwise different ids (true of the empty array and
  kept by \<open>getCars\<close>), then after \<open>getCars\<close> on a snapshot every reported id,
  reported once or several times, is the id of exactly one tracked car, whose position,
  direction and future position are those of the last entry with that id in the snapshot.
\<close>

theorem getCars_duplicate_last_wins:
  assumes "carsDistinct w" and "i \<in> cid ` set positions"
  shows "carsDistinct (getCars (Ok positions) w)
       \<and> (\<exists>r. filter (\<lambda>r. oid (heap (getCars (Ok positions) w) r) = i) (cars (getCars (Ok positions) w)) = [r]
              \<and> reportedAs (lastReport positions i) (heap (getCars (Ok positions) w) r))"
proof -
  let ?s = "spliceGone (map cid positions) (length (cars w)) w"
  let ?v = "fold trackCar positions ?s"
  have v: "getCars (Ok positions) w = ?v" by (simp add: getCars_def)
  have ds: "carsDistinct ?s" using assms(1) by (rule spliceGone_distinct)
  then have dv: "carsDistinct ?v" by (rule fold_trackCar_distinct)
  from fold_trackCar_last [OF ds assms(2)] obtain r where r: "r \<in> set (cars ?v)"
    and rep: "reportedAs (lastReport positions i) (heap ?v r)" by blast
  have "filter (\<lambda>c. cid c = i) positions \<noteq> []" using assms(2) by (auto simp: filter_empty_conv)
  then have "last (filter (\<lambda>c. cid c = i) positions) \<in> set (filter (\<lambda>c. cid c = i) positions)"
    by (rule last_in_set)
  then have "cid (lastReport positions i) = i" by (simp add: lastReport_def)
  with rep have "oid (heap ?v r) = i" by (simp add: reportedAs_def)
  moreover from dv have "distinct (map (\<lambda>r. oid (heap ?v r)) (cars ?v))"
    by (simp add: carsDistinct_def idsOf_def)
  ultimately have "filter (\<lambda>r. oid (heap ?v r) = i) (cars ?v) = [r]"
    using r by (intro distinct_filter_single) simp_all
  with rep dv show ?thesis unfolding v by blast
qed

theorem getCars_duplicate_last_wins_witness:
  "carsDistinct startWorld \<and> ''c1'' \<in> cid ` set dupSnapshot
   \<and> lastReport dupSnapshot ''c1'' = carAt ''c1'' 5 7 (Some ''Left'')
   \<and> (\<exists>r. filter (\<lambda>r. oid (heap (getCars (Ok dupSnapshot) startWorld) r) = ''c1'')
              (cars (getCars (Ok dupSnapshot) startWorld)) = [r]
          \<and> reportedAs (carAt ''c1'' 5 7 (Some ''Left'')) (heap (getCars (Ok dupSnapshot) startWorld) r))"
proof -
  have d: "carsDistinct startWorld"
    by (simp add: carsDistinct_def carsAllocated_def idsOf_def startWorld_def emptyWorld_def)
  have m: "''c1'' \<in> cid ` set dupSnapshot" by (simp add: dupSnapshot_def carAt_def)
  have l: "lastReport dupSnapshot ''c1'' = carAt ''c1'' 5 7 (Some ''Left'')"
    by (simp add: lastReport_def dupSnapshot_def carAt_def)
  from getCars_duplicate_last_wins [OF d m, THEN conjunct2] d m l show ?thesis by simp
qed

section \<open>Traffic lights\<close>

lemma refreshLight_step: "onlyLightFieldsChange w (refreshLight light w)"
proof (cases rule: find_cases [of "\<lambda>r. oid (heap w r) = lid light" "trafficLights w"])
  case (found r)
  then show ?thesis by (auto simp: onlyLightFieldsChange_def refreshLight_def)
next
  case missing
  then show ?thesis by (simp add: onlyLightFieldsChange_def refreshLight_def)
qed

lemma onlyLightFieldsChange_refl: "onlyLightFieldsChange w w"
  by (simp add: onlyLightFieldsChange_def)

lemma onlyLightFieldsChange_trans:
  assumes "onlyLightFieldsChange w v" and "onlyLightFieldsChange v u"
  shows "onlyLightFieldsChange w u"
proof -
  from assms(1) have wv: "v\<lparr>heap := heap w, console := console w\<rparr> = w"
    and hv: "\<And>r. heap v r = (heap w r)\<lparr>color := color (heap v r), state := state (heap v r)\<rparr>"
    and nv: "\<And>r. r \<notin> set (trafficLights w) \<Longrightarrow> heap v r = heap w r"
    by (simp_all add: onlyLightFieldsChange_def)
  from assms(2) have vu: "u\<lparr>heap := heap v, console := console v\<rparr> = v"
    and hu: "\<And>r. heap u r = (heap v r)\<lparr>color := color (heap u r), state := state (heap u r)\<rparr>"
    and nu: "\<And>r. r \<notin> set (trafficLights v) \<Longrightarrow> heap u r = heap v r"
    by (simp_all add: onlyLightFieldsChange_def)
  have "trafficLights (v\<lparr>heap := heap w, console := console w\<rparr>) = trafficLights v" by simp
  then have tl: "trafficLights v = trafficLights w" unfolding wv by simp
  have "u\<lparr>heap := heap w, console := console w\<rparr>
      = (u\<lparr>heap := heap v, console := console v\<rparr>)\<lparr>heap := heap w, console := console w\<rparr>"
    by simp
  then have 1: "u\<lparr>heap := heap w, console := console w\<rparr> = w" using vu wv by simp
  have 2: "heap u r = (heap w r)\<lparr>color := color (heap u r), state := state (heap u r)\<rparr>" for r
    by (subst hu, subst hv) simp
  have 3: "r \<notin> set (trafficLights w) \<Longrightarrow> heap u r = heap w r" for r
    using nu [of r] nv [of r] tl by simp
  from 1 2 3 show ?thesis unfolding onlyLightFieldsChange_def by blast
qed

lemma fold_refreshLight_step: "onlyLightFieldsChange w (fold refreshLight ps w)"
proof (induction ps arbitrary: w)
  case Nil
  show ?case by (simp add: onlyLightFieldsChange_refl)
next
  case (Cons p ps)
  from refreshLight_step [of w p] Cons [of "refreshLight p w"] show ?case
    by (simp add: onlyLightFieldsChange_trans)
qed

lemma onlyLightFieldsChange_fields:
  assumes "onlyLightFieldsChange w v"
  shows "trafficLights v = trafficLights w" "nextRef v = nextRef w" "sceneObjects v = sceneObjects w"
    "cars v = cars w" "trafficLightSpheres v = trafficLightSpheres w"
    "obstacles v = obstacles w" "roads v = roads w" "destinations v = destinations w"
    "oid (heap v r) = oid (heap w r)"
proof -
  let ?v = "v\<lparr>heap := heap w, console := console w\<rparr>"
  from assms have eq: "?v = w"
    and h: "heap v r = (heap w r)\<lparr>color := color (heap v r), state := state (heap v r)\<rparr>"
    by (simp_all add: onlyLightFieldsChange_def)
  have "trafficLights ?v = trafficLights v" "nextRef ?v = nextRef v"
    "sceneObjects ?v = sceneObjects v" "cars ?v = cars v"
    "trafficLightSpheres ?v = trafficLightSpheres v"
    "obstacles ?v = obstacles v" "roads ?v = roads v" "destinations ?v = destinations v"
    by simp_all
  then show "trafficLights v = trafficLights w" "nextRef v = nextRef w" "sceneObjects v = sceneObjects w"
    "cars v = cars w" "trafficLightSpheres v = trafficLightSpheres w"
    "obstacles v = obstacles w" "roads v = roads w" "destinations v = destinations w"
    unfolding eq by simp_all
  show "oid (heap v r) = oid (heap w r)" by (subst h) simp
qed

lemma fold_refreshLight_unreported:
  "oid (heap w r) \<notin> lid ` set ps \<Longrightarrow> heap (fold refreshLight ps w) r = heap w r"
proof (induction ps arbitrary: w)
  case Nil
  then show ?case by simp
next
  case (Cons p ps)
  have one: "heap (refreshLight p w) r = heap w r"
  proof (cases rule: find_cases [of "\<lambda>r. oid (heap w r) = lid p" "trafficLights w"])
    case (found r')
    with Cons.prems have "r \<noteq> r'" by auto
    with found show ?thesis by (simp add: refreshLight_def)
  next
    case missing
    then show ?thesis by (simp add: refreshLight_def)
  qed
  with Cons.prems have "oid (heap (refreshLight p w) r) \<notin> lid ` set ps" by simp
  from Cons.IH [OF this] one show ?case by simp
qed

lemma getTrafficLights_populated:
  assumes "trafficLights w \<noteq> []"
  shows "onlyLightFieldsChange w (getTrafficLights resp w)"
proof (cases resp)
  case (Rejected e)
  then show ?thesis by (simp add: getTrafficLights_def onlyLightFieldsChange_def)
next
  case NotOk
  then show ?thesis by (simp add: getTrafficLights_def onlyLightFieldsChange_refl)
next
  case (Ok ps)
  with assms show ?thesis by (simp add: getTrafficLights_def fold_refreshLight_step)
qed

subsection \<open>Which fields each operation can change\<close>

lemma fold_frame:
  fixes f :: "'a \<Rightarrow> world \<Rightarrow> world"
  assumes "\<And>x w. \<exists>h. f x w = w\<lparr>heap := h\<rparr>"
  shows "\<exists>h. fold f xs w = w\<lparr>heap := h\<rparr>"
proof (induction xs arbitrary: w)
  case Nil
  have "w = w\<lparr>heap := heap w\<rparr>" by simp
  then show ?case by (metis fold_simps(1))
next
  case (Cons x xs)
  from assms [of x w] obtain h1 where 1: "f x w = w\<lparr>heap := h1\<rparr>" by blast
  from Cons [of "f x w"] obtain h2 where "fold f xs (f x w) = (f x w)\<lparr>heap := h2\<rparr>" by blast
  with 1 have "fold f (x # xs) w = w\<lparr>heap := h2\<rparr>" by simp
  then show ?case by blast
qed

lemma interpolateCars_frame: "\<exists>h. interpolateCars fract w = w\<lparr>heap := h\<rparr>"
  unfolding interpolateCars_def
  by (rule fold_frame) (auto simp: interpolateCarAt_def)

lemma updateTrafficLightSpheres_frame: "\<exists>h. updateTrafficLightSpheres w = w\<lparr>heap := h\<rparr>"
  unfolding updateTrafficLightSpheres_def
proof (rule fold_frame)
  fix x and w :: world
  show "\<exists>h. showLight x w = w\<lparr>heap := h\<rparr>"
  proof (cases "trafficLightSpheres w (oid (heap w x))")
    case None
    then have "showLight x w = w\<lparr>heap := heap w\<rparr>" by (simp add: showLight_def)
    then show ?thesis by (rule exI [of _ "heap w"])
  next
    case (Some s)
    then show ?thesis by (auto simp: showLight_def Let_def)
  qed
qed

lemma fold_trackCar_frame:
  "\<exists>h n cs. fold trackCar ps w = w\<lparr>heap := h, nextRef := n, cars := cs\<rparr>"
proof (induction ps arbitrary: w)
  case Nil
  have "fold trackCar [] w = w\<lparr>heap := heap w, nextRef := nextRef w, cars := cars w\<rparr>" by simp
  then show ?case by blast
next
  case (Cons p ps)
  obtain a b c where 1: "trackCar p w = w\<lparr>heap := a, nextRef := b, cars := c\<rparr>"
    using trackCar_frame [of p w] by blast
  from Cons [of "trackCar p w"] obtain h n cs where
    "fold trackCar ps (trackCar p w) = (trackCar p w)\<lparr>heap := h, nextRef := n, cars := cs\<rparr>"
    by blast
  then have "fold trackCar (p # ps) w = (trackCar p w)\<lparr>heap := h, nextRef := n, cars := cs\<rparr>"
    by simp
  also have "\<dots> = w\<lparr>heap := h, nextRef := n, cars := cs\<rparr>"
    by (subst 1) simp
  finally show ?case by blast
qed

lemma getCars_frame:
  "\<exists>h n cs lg. getCars resp w = w\<lparr>heap := h, nextRef := n, cars := cs, console := lg\<rparr>"
proof (cases resp)
  case (Rejected e)
  then have "getCars resp w
      = w\<lparr>heap := heap w, nextRef := nextRef w, cars := cars w, console := console w @ [e]\<rparr>"
    by (simp add: getCars_def)
  then show ?thesis by blast
next
  case NotOk
  then have "getCars resp w
      = w\<lparr>heap := heap w, nextRef := nextRef w, cars := cars w, console := console w\<rparr>"
    by (simp add: getCars_def)
  then show ?thesis by blast
next
  case (Ok ps)
  let ?s = "spliceGone (map cid ps) (length (cars w)) w"
  obtain cs0 lg0 where s: "?s = w\<lparr>cars := cs0, console := lg0\<rparr>"
    using spliceGone_frame [of "map cid ps" "length (cars w)" w] by blast
  obtain h n cs where "fold trackCar ps ?s = ?s\<lparr>heap := h, nextRef := n, cars := cs\<rparr>"
    using fold_trackCar_frame [of ps ?s] by blast
  then have "fold trackCar ps ?s = ?s\<lparr>heap := h, nextRef := n, cars := cs\<rparr>" .
  also have "\<dots> = w\<lparr>heap := h, nextRef := n, cars := cs, console := lg0\<rparr>"
    by (subst s) simp
  finally have "fold trackCar ps ?s = w\<lparr>heap := h, nextRef := n, cars := cs, console := lg0\<rparr>" .
  with Ok have "getCars resp w = w\<lparr>heap := h, nextRef := n, cars := cs, console := lg0\<rparr>"
    by (simp add: getCars_def)
  then show ?thesis by blast
qed

lemma retireCar_frame: "\<exists>so. retireCar ids c w = w\<lparr>sceneObjects := so\<rparr>"
proof (cases "oid (heap w c) \<in> set ids")
  case True
  then have "retireCar ids c w = w\<lparr>sceneObjects := sceneObjects w\<rparr>" by (simp add: retireCar_def)
  then show ?thesis by blast
next
  case False
  then show ?thesis by (auto simp: retireCar_def removeObject_def)
qed

lemma fold_retireCar_frame: "\<exists>so. fold (retireCar ids) cs w = w\<lparr>sceneObjects := so\<rparr>"
proof (induction cs arbitrary: w)
  case Nil
  have "fold (retireCar ids) [] w = w\<lparr>sceneObjects := sceneObjects w\<rparr>" by simp
  then show ?case by blast
next
  case (Cons c cs)
  obtain a where 1: "retireCar ids c w = w\<lparr>sceneObjects := a\<rparr>"
    using retireCar_frame [of ids c w] by blast
  from Cons [of "retireCar ids c w"] obtain so where
    "fold (retireCar ids) cs (retireCar ids c w) = (retireCar ids c w)\<lparr>sceneObjects := so\<rparr>" by blast
  then have "fold (retireCar ids) (c # cs) w = (retireCar ids c w)\<lparr>sceneObjects := so\<rparr>" by simp
  also have "\<dots> = w\<lparr>sceneObjects := so\<rparr>" by (subst 1) simp
  finally show ?case by blast
qed

lemma addObject_frame: "\<exists>so. addObject r w = w\<lparr>sceneObjects := so\<rparr>"
proof (cases "oid (heap w r) \<in> set (idsOf w (sceneObjects w))")
  case True
  then have "addObject r w = w\<lparr>sceneObjects := sceneObjects w\<rparr>" by (simp add: addObject_def)
  then show ?thesis by blast
next
  case False
  then show ?thesis by (auto simp: addObject_def)
qed

lemma placeCar_frame:
  "\<exists>h so rc. placeCar c w = w\<lparr>heap := h, sceneObjects := so, randomCalls := rc\<rparr>"
proof (cases "vao (heap w c) = None \<and> length (carModels w) > 0")
  case True
  let ?w0 = "w\<lparr>heap := (heap w)(c := (heap w c)
                      \<lparr>vao := Some (mvao (randomCarModel w)),
                       scale := (0.002 * GLOBAL_SCALE, 0.002 * GLOBAL_SCALE, 0.0015 * GLOBAL_SCALE),
                       currentRotY := Some 0,
                       targetRotY := Some 0\<rparr>),
                    randomCalls := Suc (randomCalls w)\<rparr>"
  obtain so where 1: "addObject c ?w0 = ?w0\<lparr>sceneObjects := so\<rparr>"
    using addObject_frame [of c ?w0] by blast
  from True have "placeCar c w
      = (addObject c ?w0)\<lparr>heap := (heap (addObject c ?w0))(c := updateCarRotation (heap (addObject c ?w0) c))\<rparr>"
    by (simp add: placeCar_def Let_def)
  also have "\<dots> = w\<lparr>heap := (heap (addObject c ?w0))(c := updateCarRotation (heap (addObject c ?w0) c)),
        sceneObjects := so, randomCalls := Suc (randomCalls w)\<rparr>"
    by (subst (3) 1) simp
  finally show ?thesis by blast
next
  case False
  then have "placeCar c w = w\<lparr>heap := (heap w)(c := updateCarRotation (heap w c)),
      sceneObjects := sceneObjects w, randomCalls := randomCalls w\<rparr>"
    by (auto simp: placeCar_def Let_def)
  then show ?thesis by blast
qed

lemma fold_placeCar_frame:
  "\<exists>h so rc. fold placeCar cs w = w\<lparr>heap := h, sceneObjects := so, randomCalls := rc\<rparr>"
proof (induction cs arbitrary: w)
  case Nil
  have "fold placeCar [] w = w\<lparr>heap := heap w, sceneObjects := sceneObjects w, randomCalls := randomCalls w\<rparr>"
    by simp
  then show ?case by blast
next
  case (Cons c cs)
  obtain a b d where 1: "placeCar c w = w\<lparr>heap := a, sceneObjects := b, randomCalls := d\<rparr>"
    using placeCar_frame [of c w] by blast
  from Cons [of "placeCar c w"] obtain h so rc where
    "fold placeCar cs (placeCar c w) = (placeCar c w)\<lparr>heap := h, sceneObjects := so, randomCalls := rc\<rparr>"
    by blast
  then have "fold placeCar (c # cs) w = (placeCar c w)\<lparr>heap := h, sceneObjects := so, randomCalls := rc\<rparr>"
    by simp
  also have "\<dots> = w\<lparr>heap := h, sceneObjects := so, randomCalls := rc\<rparr>" by (subst 1) simp
  finally show ?case by blast
qed

lemma updateCars_frame:
  "\<exists>h so rc. updateCars w = w\<lparr>heap := h, sceneObjects := so, randomCalls := rc\<rparr>"
proof -
  let ?u = "fold (retireCar (idsOf w (cars w))) (carsInScene w) w"
  obtain so0 where 1: "?u = w\<lparr>sceneObjects := so0\<rparr>"
    using fold_retireCar_frame [of "idsOf w (cars w)" "carsInScene w" w] by blast
  obtain h so rc where "fold placeCar (cars w) ?u = ?u\<lparr>heap := h, sceneObjects := so, randomCalls := rc\<rparr>"
    using fold_placeCar_frame [of "cars w" ?u] by blast
  also have "\<dots> = w\<lparr>heap := h, sceneObjects := so, randomCalls := rc\<rparr>" by (subst 1) simp
  finally show ?thesis unfolding updateCars_def Let_def by blast
qed

lemma getTrafficLights_frame:
  "\<exists>h n ls lg. getTrafficLights resp w = w\<lparr>heap := h, nextRef := n, trafficLights := ls, console := lg\<rparr>"
proof (cases "trafficLights w = []")
  case False
  let ?v = "getTrafficLights resp w"
  from getTrafficLights_populated [OF False, of resp]
  have "?v\<lparr>heap := heap w, console := console w\<rparr> = w" by (simp add: onlyLightFieldsChange_def)
  then have "?v\<lparr>heap := heap w, console := console w\<rparr>\<lparr>heap := heap ?v, console := console ?v\<rparr>
      = w\<lparr>heap := heap ?v, console := console ?v\<rparr>" by simp
  then have "?v = w\<lparr>heap := heap ?v, nextRef := nextRef w, trafficLights := trafficLights w, console := console ?v\<rparr>"
    by simp
  then show ?thesis by blast
next
  case True
  have push: "\<exists>h n ls. fold pushLight ps w = w\<lparr>heap := h, nextRef := n, trafficLights := ls\<rparr>" for ps w
  proof (induction ps arbitrary: w)
    case Nil
    have "fold pushLight [] w = w\<lparr>heap := heap w, nextRef := nextRef w, trafficLights := trafficLights w\<rparr>"
      by simp
    then show ?case by blast
  next
    case (Cons p ps)
    have 1: "pushLight p w = w\<lparr>heap := heap (pushLight p w), nextRef := nextRef (pushLight p w),
        trafficLights := trafficLights (pushLight p w)\<rparr>"
      by (simp add: pushLight_def alloc_def)
    from Cons [of "pushLight p w"] obtain h n ls where
      "fold pushLight ps (pushLight p w) = (pushLight p w)\<lparr>heap := h, nextRef := n, trafficLights := ls\<rparr>"
      by blast
    then have "fold pushLight (p # ps) w = (pushLight p w)\<lparr>heap := h, nextRef := n, trafficLights := ls\<rparr>"
      by simp
    also have "\<dots> = w\<lparr>heap := h, nextRef := n, trafficLights := ls\<rparr>" by (subst 1) simp
    finally show ?case by blast
  qed
  show ?thesis
  proof (cases resp)
    case (Rejected e)
    then have "getTrafficLights resp w = w\<lparr>heap := heap w, nextRef := nextRef w,
        trafficLights := trafficLights w, console := console w @ [e]\<rparr>"
      by (simp add: getTrafficLights_def)
    then show ?thesis by blast
  next
    case NotOk
    then have "getTrafficLights resp w = w\<lparr>heap := heap w, nextRef := nextRef w,
        trafficLights := trafficLights w, console := console w\<rparr>"
      by (simp add: getTrafficLights_def)
    then show ?thesis by blast
  next
    case (Ok ps)
    obtain h n ls where "fold pushLight ps w = w\<lparr>heap := h, nextRef := n, trafficLights := ls\<rparr>"
      using push [of ps w] by blast
    with Ok True have "getTrafficLights resp w = w\<lparr>heap := h, nextRef := n, trafficLights := ls,
        console := console w\<rparr>"
      by (simp add: getTrafficLights_def)
    then show ?thesis by blast
  qed
qed

lemma addObject_fields [simp]:
  "heap (addObject r w) = heap w" "nextRef (addObject r w) = nextRef w"
  "trafficLightSpheres (addObject r w) = trafficLightSpheres w"
  "trafficLights (addObject r w) = trafficLights w" "cars (addObject r w) = cars w"
  "carModels (addObject r w) = carModels w" "trafficLightModel (addObject r w) = trafficLightModel w"
  by (simp_all add: addObject_def)

subsection \<open>Lights keep colour and state in step\<close>





subsection \<open>Indicator spheres\<close>







lemma setupLight_sphere:
  "\<exists>s. trafficLightSpheres (setupLight baseCube l w) (oid (heap w l)) = Some s
      \<and> sphereShows (state (heap w l) = Some True) (heap (setupLight baseCube l w) s)"
  by (cases "trafficLightModel w")
     (simp_all add: setupLight_def Let_def alloc_def Object3D_def sphereShows_def)

lemma litWorld_facts:
  "trafficLights litWorld = [0, 1] \<and> nextRef litWorld = 6 \<and> sceneObjects litWorld = [2, 0, 3, 4, 1, 5]
   \<and> oid (heap litWorld 0) = ''L1'' \<and> oid (heap litWorld 1) = ''L2''
   \<and> state (heap litWorld 0) = Some True \<and> state (heap litWorld 1) = Some False
   \<and> color (heap litWorld 0) = (0, 1, 0, 1) \<and> color (heap litWorld 1) = (1, 0, 0, 1)
   \<and> trafficLightSpheres litWorld ''L1'' = Some 3 \<and> trafficLightSpheres litWorld ''L2'' = Some 5"
  by code_simp

lemma interpolateCars_trafficLights: "trafficLights (interpolateCars f w) = trafficLights w"
proof -
  obtain h where "interpolateCars f w = w\<lparr>heap := h\<rparr>" using interpolateCars_frame by blast
  then show ?thesis by simp
qed

lemma updateCars_trafficLights: "trafficLights (updateCars w) = trafficLights w"
proof -
  obtain h so rc where "updateCars w = w\<lparr>heap := h, sceneObjects := so, randomCalls := rc\<rparr>"
    using updateCars_frame by blast
  then show ?thesis by simp
qed

lemma updateTrafficLightSpheres_trafficLights:
  "trafficLights (updateTrafficLightSpheres w) = trafficLights w"
proof -
  obtain h where "updateTrafficLightSpheres w = w\<lparr>heap := h\<rparr>"
    using updateTrafficLightSpheres_frame by blast
  then show ?thesis by simp
qed

lemma getCars_trafficLights: "trafficLights (getCars resp w) = trafficLights w"
proof -
  obtain h n cs lg where "getCars resp w = w\<lparr>heap := h, nextRef := n, cars := cs, console := lg\<rparr>"
    using getCars_frame by blast
  then show ?thesis by simp
qed

lemma update_trafficLights:
  assumes "trafficLights w \<noteq> []"
  shows "trafficLights (update ru rc rl w) = trafficLights w"
proof (cases ru)
  case (Ok u)
  from assms have "trafficLights (getCars rc w) \<noteq> []" by (simp add: getCars_trafficLights)
  from onlyLightFieldsChange_fields(1) [OF getTrafficLights_populated [OF this]] Ok
  show ?thesis by (simp add: update_def getCars_trafficLights)
qed (simp_all add: update_def)

lemma drawScene_trafficLights:
  assumes "trafficLights w \<noteq> []"
  shows "trafficLights (drawScene now ru rc rl w) = trafficLights w"
proof -
  let ?w1 = "interpolateCars (frameFract now w) (w\<lparr>elapsed := frameElapsed now w, frameThen := now\<rparr>)"
  have 1: "trafficLights ?w1 = trafficLights w" by (simp add: interpolateCars_trafficLights)
  with assms have "trafficLights (?w1\<lparr>elapsed := 0\<rparr>) \<noteq> []" by simp
  from update_trafficLights [OF this] 1
  have "trafficLights (update ru rc rl (?w1\<lparr>elapsed := 0\<rparr>)) = trafficLights w" by simp
  with 1 show ?thesis
    by (simp add: drawScene_def Let_def updateTrafficLightSpheres_trafficLights updateCars_trafficLights)
qed

text \<open>
  C10. Once \<open>trafficLights\<close> is not empty, a call of \<open>getTrafficLights\<close>, whatever
  the response, leaves the array, the ids of its lights, the reference counter (so no
  object is created) and the scene as they were. In the object store it changes at most
  the colour and the state of objects, only of tracked lights, and only of those whose id
  the response reports. A whole frame \<open>drawScene\<close>, poll included, leaves the array as
  it was.
\<close>

theorem trafficLights_fixed_after_population:
  assumes "trafficLights w \<noteq> []" and "v = getTrafficLights resp w"
  shows "trafficLights v = trafficLights w
       \<and> idsOf v (trafficLights v) = idsOf w (trafficLights w)
       \<and> nextRef v = nextRef w
       \<and> sceneObjects v = sceneObjects w
       \<and> (\<forall>r. heap v r = (heap w r)\<lparr>color := color (heap v r), state := state (heap v r)\<rparr>)
       \<and> (\<forall>r. r \<notin> set (trafficLights w) \<longrightarrow> heap v r = heap w r)
       \<and> (\<forall>ps r. resp = Ok ps \<and> oid (heap w r) \<notin> lid ` set ps \<longrightarrow> heap v r = heap w r)
       \<and> trafficLights (drawScene now ru rc resp w) = trafficLights w"
proof -
  have step: "onlyLightFieldsChange w v"
    unfolding assms(2) using assms(1) by (rule getTrafficLights_populated)
  note f = onlyLightFieldsChange_fields [OF step]
  have ids: "idsOf v (trafficLights v) = idsOf w (trafficLights w)"
    by (simp add: idsOf_def f)
  have fields: "\<forall>r. heap v r = (heap w r)\<lparr>color := color (heap v r), state := state (heap v r)\<rparr>"
    and others: "\<forall>r. r \<notin> set (trafficLights w) \<longrightarrow> heap v r = heap w r"
    using step by (simp_all add: onlyLightFieldsChange_def)
  have unreported: "\<forall>ps r. resp = Ok ps \<and> oid (heap w r) \<notin> lid ` set ps \<longrightarrow> heap v r = heap w r"
    using assms by (auto simp: getTrafficLights_def fold_refreshLight_unreported)
  from f(1,2,3) ids fields others unreported drawScene_trafficLights [OF assms(1)]
  show ?thesis by blast
qed

theorem trafficLights_fixed_after_population_witness:
  "trafficLights litWorld \<noteq> []
   \<and> trafficLights (getTrafficLights (Ok [lightAt ''L1'' 2 2 False, lightAt ''L9'' 9 9 True]) litWorld) = [0, 1]
   \<and> idsOf (getTrafficLights (Ok [lightAt ''L1'' 2 2 False, lightAt ''L9'' 9 9 True]) litWorld) [0, 1]
       = [''L1'', ''L2'']
   \<and> nextRef (getTrafficLights (Ok [lightAt ''L1'' 2 2 False, lightAt ''L9'' 9 9 True]) litWorld) = 6
   \<and> heap (getTrafficLights (Ok [lightAt ''L1'' 2 2 False, lightAt ''L9'' 9 9 True]) litWorld) 1
       = heap litWorld 1"
proof -
  let ?resp = "Ok [lightAt ''L1'' 2 2 False, lightAt ''L9'' 9 9 True]"
  have ne: "trafficLights litWorld \<noteq> []" using litWorld_facts by simp
  note inst = trafficLights_fixed_after_population [OF ne refl, of ?resp]
  note same = inst [THEN conjunct1]
  note ids = inst [THEN conjunct2, THEN conjunct1]
  note nxt = inst [THEN conjunct2, THEN conjunct2, THEN conjunct1]
  note unrep = inst [THEN conjunct2, THEN conjunct2, THEN conjunct2, THEN conjunct2,
      THEN conjunct2, THEN conjunct2, THEN conjunct1, rule_format]
  have nin: "oid (heap litWorld 1) \<notin> lid ` set [lightAt ''L1'' 2 2 False, lightAt ''L9'' 9 9 True]"
    using litWorld_facts by (simp add: lightAt_def)
  have d: "heap (getTrafficLights ?resp litWorld) 1 = heap litWorld 1"
    by (rule unrep [OF conjI [OF refl nin]])
  have a: "trafficLights (getTrafficLights ?resp litWorld) = [0, 1]"
    using same litWorld_facts by simp
  have b: "idsOf (getTrafficLights ?resp litWorld) [0, 1] = [''L1'', ''L2'']"
    using ids a litWorld_facts by (simp add: idsOf_def)
  have c: "nextRef (getTrafficLights ?resp litWorld) = 6"
    using nxt litWorld_facts by simp
  from ne a b c d show ?thesis by (intro conjI)
qed

section \<open>Cars in the scene\<close>

subsection \<open>Retiring cars from the scene\<close>

lemma retiredIds_Cons:
  "retiredIds w ids (c # cs)
    = (if oid (heap w c) \<in> set ids then retiredIds w ids cs
       else insert (oid (heap w c)) (retiredIds w ids cs))"
  by (auto simp: retiredIds_def)

lemma retiredIds_scene [simp]: "retiredIds (w\<lparr>sceneObjects := so\<rparr>) ids cs = retiredIds w ids cs"
  by (simp add: retiredIds_def)

lemma fold_retireCar_scene:
  "fold (retireCar ids) cs w =
     w\<lparr>sceneObjects := filter (\<lambda>obj. oid (heap w obj) \<notin> retiredIds w ids cs) (sceneObjects w)\<rparr>"
proof (induction cs arbitrary: w)
  case Nil
  then show ?case by (simp add: retiredIds_def)
next
  case (Cons c cs)
  show ?case
  proof (cases "oid (heap w c) \<in> set ids")
    case True
    then have "retireCar ids c w = w" by (simp add: retireCar_def)
    with Cons [of w] True show ?thesis by (simp add: retiredIds_Cons)
  next
    case False
    let ?w1 = "w\<lparr>sceneObjects := filter (\<lambda>obj. oid (heap w obj) \<noteq> oid (heap w c)) (sceneObjects w)\<rparr>"
    from False have 1: "retireCar ids c w = ?w1" by (simp add: retireCar_def removeObject_def)
    have "fold (retireCar ids) (c # cs) w = fold (retireCar ids) cs ?w1" using 1 by simp
    also have "\<dots> = ?w1\<lparr>sceneObjects :=
        filter (\<lambda>obj. oid (heap ?w1 obj) \<notin> retiredIds ?w1 ids cs) (sceneObjects ?w1)\<rparr>"
      by (rule Cons)
    also have "\<dots> = w\<lparr>sceneObjects :=
        filter (\<lambda>obj. oid (heap w obj) \<notin> retiredIds w ids (c # cs)) (sceneObjects w)\<rparr>"
      using False by (simp add: retiredIds_Cons conj_commute)
    finally show ?thesis .
  qed
qed

lemma fold_retireCar_noop:
  assumes "\<forall>c \<in> set cs. oid (heap w c) \<in> set ids"
  shows "fold (retireCar ids) cs w = w"
proof -
  have "retiredIds w ids cs = {}" using assms by (auto simp: retiredIds_def)
  then show ?thesis by (simp add: fold_retireCar_scene)
qed

lemma carsInScene_noop:
  assumes "sceneTracksCars w"
  shows "fold (retireCar (idsOf w (cars w))) (carsInScene w) w = w"
  using assms by (intro fold_retireCar_noop) (auto simp: carsInScene_def sceneTracksCars_def)

subsection \<open>Placing cars in the scene\<close>

lemma updateCarRotation_keeps:
  "oid (updateCarRotation c) = oid c" "vao (updateCarRotation c) = vao c"
  by (auto simp: updateCarRotation_def Let_def split: option.splits)

lemma addObject_scene:
  "sceneObjects (addObject r w)
    = (if oid (heap w r) \<in> set (idsOf w (sceneObjects w)) then sceneObjects w else sceneObjects w @ [r])"
  by (simp add: addObject_def)

lemma placeCar_old:
  assumes "\<not> (vao (heap w c) = None \<and> length (carModels w) > 0)"
  shows "placeCar c w = w\<lparr>heap := (heap w)(c := updateCarRotation (heap w c))\<rparr>"
  using assms by (auto simp: placeCar_def Let_def)

lemma placeCar_new:
  assumes "vao (heap w c) = None \<and> length (carModels w) > 0"
  shows "\<exists>car'. vao car' \<noteq> None \<and> oid car' = oid (heap w c)
          \<and> placeCar c w =
              (addObject c (w\<lparr>heap := (heap w)(c := car'), randomCalls := Suc (randomCalls w)\<rparr>))
                \<lparr>heap := (heap w)(c := updateCarRotation car')\<rparr>"
proof -
  let ?car = "(heap w c)
                      \<lparr>vao := Some (mvao (randomCarModel w)),
                       scale := (0.002 * GLOBAL_SCALE, 0.002 * GLOBAL_SCALE, 0.0015 * GLOBAL_SCALE),
                       currentRotY := Some 0,
                       targetRotY := Some 0\<rparr>"
  have "placeCar c w =
      (addObject c (w\<lparr>heap := (heap w)(c := ?car), randomCalls := Suc (randomCalls w)\<rparr>))
        \<lparr>heap := (heap w)(c := updateCarRotation ?car)\<rparr>"
    using assms by (simp add: placeCar_def Let_def)
  moreover have "vao ?car \<noteq> None" "oid ?car = oid (heap w c)" by simp_all
  ultimately show ?thesis by blast
qed

lemma placeCar_heap_other: "r \<noteq> c \<Longrightarrow> heap (placeCar c w) r = heap w r"
proof (cases "vao (heap w c) = None \<and> length (carModels w) > 0")
  case True
  assume "r \<noteq> c"
  with placeCar_new [OF True] show ?thesis by auto
next
  case False
  assume "r \<noteq> c"
  with placeCar_old [OF False] show ?thesis by simp
qed

lemma placeCar_oid: "oid (heap (placeCar c w) r) = oid (heap w r)"
proof (cases "vao (heap w c) = None \<and> length (carModels w) > 0")
  case True
  with placeCar_new [OF True] show ?thesis by (auto simp: updateCarRotation_keeps)
next
  case False
  with placeCar_old [OF False] show ?thesis by (simp add: updateCarRotation_keeps)
qed

lemma placeCar_vao_kept: "vao (heap w r) \<noteq> None \<Longrightarrow> vao (heap (placeCar c w) r) = vao (heap w r)"
proof (cases "vao (heap w c) = None \<and> length (carModels w) > 0")
  case True
  assume "vao (heap w r) \<noteq> None"
  with True have "r \<noteq> c" by auto
  then show ?thesis by (simp add: placeCar_heap_other)
next
  case False
  with placeCar_old [OF False] show ?thesis by (simp add: updateCarRotation_keeps)
qed

lemma placeCar_vao_set: "length (carModels w) > 0 \<Longrightarrow> vao (heap (placeCar c w) c) \<noteq> None"
proof (cases "vao (heap w c) = None \<and> length (carModels w) > 0")
  case True
  with placeCar_new [OF True] show ?thesis by (auto simp: updateCarRotation_keeps)
next
  case False
  assume "length (carModels w) > 0"
  with False placeCar_old [OF False] show ?thesis by (simp add: updateCarRotation_keeps)
qed

lemma placeCar_vao_none:
  "\<not> length (carModels w) > 0 \<Longrightarrow> vao (heap (placeCar c w) r) = vao (heap w r)"
  by (simp add: placeCar_old updateCarRotation_keeps)

lemma placeCar_scene:
  "sceneObjects (placeCar c w)
    = (if vao (heap w c) = None \<and> length (carModels w) > 0
          \<and> oid (heap w c) \<notin> set (idsOf w (sceneObjects w))
       then sceneObjects w @ [c] else sceneObjects w)"
proof (cases "vao (heap w c) = None \<and> length (carModels w) > 0")
  case True
  from placeCar_new [OF True] obtain car' where car': "oid car' = oid (heap w c)"
    and eq: "placeCar c w =
              (addObject c (w\<lparr>heap := (heap w)(c := car'), randomCalls := Suc (randomCalls w)\<rparr>))
                \<lparr>heap := (heap w)(c := updateCarRotation car')\<rparr>"
    by blast
  let ?w0 = "w\<lparr>heap := (heap w)(c := car'), randomCalls := Suc (randomCalls w)\<rparr>"
  have "idsOf ?w0 (sceneObjects ?w0) = idsOf w (sceneObjects w)"
    using car' by (auto simp: idsOf_def)
  with True car' show ?thesis unfolding eq by (simp add: addObject_scene)
next
  case False
  with placeCar_old [OF False] show ?thesis by auto
qed

lemma placeCar_fields [simp]:
  "cars (placeCar c w) = cars w" "nextRef (placeCar c w) = nextRef w"
  "carModels (placeCar c w) = carModels w"
proof -
  have "cars (placeCar c w) = cars w \<and> nextRef (placeCar c w) = nextRef w
      \<and> carModels (placeCar c w) = carModels w"
  proof (cases "vao (heap w c) = None \<and> length (carModels w) > 0")
    case True
    with placeCar_new [OF True] show ?thesis by (auto simp: addObject_def)
  next
    case False
    with placeCar_old [OF False] show ?thesis by simp
  qed
  then show "cars (placeCar c w) = cars w" "nextRef (placeCar c w) = nextRef w"
    "carModels (placeCar c w) = carModels w" by simp_all
qed

lemma placeCar_ids [simp]: "idsOf (placeCar c w) rs = idsOf w rs"
  by (simp add: idsOf_def placeCar_oid)

lemma placeCar_shown:
  assumes "vao (heap w c) = None" and "vao (heap (placeCar c w) c) \<noteq> None"
  shows "oid (heap w c) \<in> set (idsOf w (sceneObjects (placeCar c w)))"
proof -
  have "length (carModels w) > 0"
  proof (rule ccontr)
    assume "\<not> length (carModels w) > 0"
    then have "vao (heap (placeCar c w) c) = vao (heap w c)" by (rule placeCar_vao_none)
    with assms show False by simp
  qed
  with assms(1) show ?thesis by (auto simp: placeCar_scene idsOf_def)
qed

lemma fold_placeCar_fields [simp]:
  "cars (fold placeCar cs w) = cars w" "nextRef (fold placeCar cs w) = nextRef w"
  "carModels (fold placeCar cs w) = carModels w" "idsOf (fold placeCar cs w) rs = idsOf w rs"
  by (induction cs arbitrary: w) simp_all

lemma fold_placeCar_other: "r \<notin> set cs \<Longrightarrow> heap (fold placeCar cs w) r = heap w r"
  by (induction cs arbitrary: w) (simp_all add: placeCar_heap_other)

lemma fold_placeCar_vao_kept:
  "vao (heap w r) \<noteq> None \<Longrightarrow> vao (heap (fold placeCar cs w) r) = vao (heap w r)"
  by (induction cs arbitrary: w) (simp_all add: placeCar_vao_kept)

lemma fold_placeCar_meshed:
  "length (carModels w) > 0 \<Longrightarrow> c \<in> set cs \<Longrightarrow> vao (heap (fold placeCar cs w) c) \<noteq> None"
proof (induction cs arbitrary: w)
  case Nil
  then show ?case by simp
next
  case (Cons a cs)
  show ?case
  proof (cases "c \<in> set cs")
    case True
    with Cons.IH [of "placeCar a w"] Cons.prems show ?thesis by simp
  next
    case False
    with Cons.prems have "c = a" by simp
    with Cons.prems have "vao (heap (placeCar a w) c) \<noteq> None" by (simp add: placeCar_vao_set)
    then show ?thesis by (simp add: fold_placeCar_vao_kept)
  qed
qed

lemma fold_placeCar_scene:
  "set (sceneObjects w) \<subseteq> set (sceneObjects (fold placeCar cs w))
   \<and> set (sceneObjects (fold placeCar cs w)) \<subseteq> set (sceneObjects w) \<union> set cs"
proof (induction cs arbitrary: w)
  case Nil
  then show ?case by simp
next
  case (Cons a cs)
  have "set (sceneObjects w) \<subseteq> set (sceneObjects (placeCar a w))"
    and "set (sceneObjects (placeCar a w)) \<subseteq> set (sceneObjects w) \<union> {a}"
    by (auto simp: placeCar_scene)
  with Cons [of "placeCar a w"] show ?case by auto
qed

lemma fold_placeCar_noop:
  assumes "\<forall>c \<in> set cs. \<not> (vao (heap w c) = None \<and> length (carModels w) > 0)"
  shows "sceneObjects (fold placeCar cs w) = sceneObjects w
       \<and> (\<forall>r. vao (heap (fold placeCar cs w) r) = vao (heap w r))"
  using assms
proof (induction cs arbitrary: w)
  case Nil
  then show ?case by simp
next
  case (Cons a cs)
  from Cons.prems have old: "\<not> (vao (heap w a) = None \<and> length (carModels w) > 0)" by fastforce
  have vao: "vao (heap (placeCar a w) r) = vao (heap w r)" for r
    using placeCar_old [OF old] by (simp add: updateCarRotation_keeps)
  have sc: "sceneObjects (placeCar a w) = sceneObjects w"
    using old by (auto simp: placeCar_scene)
  have "\<forall>c \<in> set cs. \<not> (vao (heap (placeCar a w) c) = None \<and> length (carModels (placeCar a w)) > 0)"
    using Cons.prems by (auto simp: vao)
  from Cons.IH [OF this] vao sc show ?case by simp
qed

lemma placeCar_distinct:
  assumes "distinct (idsOf w (sceneObjects w))"
  shows "distinct (idsOf w (sceneObjects (placeCar c w)))"
  using assms by (auto simp: placeCar_scene idsOf_def)

lemma fold_placeCar_distinct:
  "distinct (idsOf w (sceneObjects w)) \<Longrightarrow> distinct (idsOf w (sceneObjects (fold placeCar cs w)))"
proof (induction cs arbitrary: w)
  case Nil
  then show ?case by simp
next
  case (Cons a cs)
  from placeCar_distinct [OF Cons.prems, of a]
  have "distinct (idsOf (placeCar a w) (sceneObjects (placeCar a w)))" by simp
  from Cons.IH [OF this] show ?case by simp
qed

lemma fold_placeCar_shown:
  assumes "c \<in> set cs" and "vao (heap (fold placeCar cs w) c) \<noteq> None"
  shows "vao (heap w c) \<noteq> None \<or> oid (heap w c) \<in> set (idsOf w (sceneObjects (fold placeCar cs w)))"
  using assms
proof (induction cs arbitrary: w)
  case Nil
  then show ?case by simp
next
  case (Cons a cs)
  let ?w1 = "placeCar a w"
  have grow: "set (sceneObjects ?w1) \<subseteq> set (sceneObjects (fold placeCar cs ?w1))"
    using fold_placeCar_scene [of ?w1 cs] by simp
  have step: "vao (heap ?w1 c) \<noteq> None \<Longrightarrow>
      vao (heap w c) \<noteq> None \<or> oid (heap w c) \<in> set (idsOf w (sceneObjects (fold placeCar cs ?w1)))"
  proof -
    assume set: "vao (heap ?w1 c) \<noteq> None"
    show ?thesis
    proof (cases "vao (heap w c) = None")
      case False
      then show ?thesis by simp
    next
      case True
      have "c = a"
      proof (rule ccontr)
        assume "c \<noteq> a"
        then have "heap ?w1 c = heap w c" by (rule placeCar_heap_other)
        with True set show False by simp
      qed
      with True set placeCar_shown [of w a]
      have "oid (heap w c) \<in> set (idsOf w (sceneObjects ?w1))" by simp
      with grow show ?thesis by (auto simp: idsOf_def)
    qed
  qed
  show ?case
  proof (cases "c \<in> set cs")
    case True
    from Cons.IH [OF True, of ?w1] Cons.prems(2)
    have "vao (heap ?w1 c) \<noteq> None
        \<or> oid (heap w c) \<in> set (idsOf w (sceneObjects (fold placeCar cs ?w1)))"
      by (simp add: placeCar_oid)
    with step show ?thesis by auto
  next
    case False
    then have "heap (fold placeCar cs ?w1) c = heap ?w1 c" by (rule fold_placeCar_other)
    with Cons.prems(2) have "vao (heap ?w1 c) \<noteq> None" by simp
    with step show ?thesis by simp
  qed
qed

subsection \<open>What \<open>updateCars\<close> establishes\<close>

lemma hasCarVAO_cong:
  "vao (heap v r) = vao (heap w r) \<Longrightarrow> carModels v = carModels w \<Longrightarrow> hasCarVAO v r = hasCarVAO w r"
  by (cases "vao (heap w r)") (simp_all add: hasCarVAO_def)

lemma updateCars_unfold:
  "updateCars w =
     fold placeCar (cars w)
       (w\<lparr>sceneObjects := filter (\<lambda>obj. oid (heap w obj) \<notin> retiredIds w (idsOf w (cars w)) (carsInScene w))
                            (sceneObjects w)\<rparr>)"
  by (simp add: updateCars_def Let_def fold_retireCar_scene)

lemma updateCars_fields [simp]:
  "cars (updateCars w) = cars w" "nextRef (updateCars w) = nextRef w"
  "carModels (updateCars w) = carModels w" "idsOf (updateCars w) rs = idsOf w rs"
  by (simp_all add: updateCars_unfold) (simp add: idsOf_def)

lemma updateCars_tracks: "sceneTracksCars (updateCars w)"
  unfolding sceneTracksCars_def
proof (intro ballI impI)
  fix obj
  let ?u = "w\<lparr>sceneObjects := filter (\<lambda>obj. oid (heap w obj) \<notin> retiredIds w (idsOf w (cars w)) (carsInScene w))
                            (sceneObjects w)\<rparr>"
  assume mem: "obj \<in> set (sceneObjects (updateCars w))"
    and car: "oid (heap (updateCars w) obj) \<noteq> [] \<and> hasCarVAO (updateCars w) obj"
  have id: "oid (heap (updateCars w) obj) = oid (heap w obj)"
    using updateCars_fields(4) [of w "[obj]"] by (simp add: idsOf_def)
  show "oid (heap (updateCars w) obj) \<in> set (idsOf (updateCars w) (cars (updateCars w)))"
  proof (cases "obj \<in> set (cars w)")
    case True
    then show ?thesis by (simp add: id) (simp add: idsOf_def)
  next
    case False
    then have same: "heap (updateCars w) obj = heap w obj"
      by (simp add: updateCars_unfold fold_placeCar_other)
    from mem False have "obj \<in> set (sceneObjects ?u)"
      using fold_placeCar_scene [of ?u "cars w"] by (auto simp: updateCars_unfold)
    then have inscene: "obj \<in> set (sceneObjects w)"
      and kept: "oid (heap w obj) \<notin> retiredIds w (idsOf w (cars w)) (carsInScene w)"
      by simp_all
    have "hasCarVAO (updateCars w) obj = hasCarVAO w obj"
      by (rule hasCarVAO_cong) (simp_all add: same)
    with car same have "oid (heap w obj) \<noteq> []" and "hasCarVAO w obj"
      by simp_all
    with inscene have "obj \<in> set (carsInScene w)" by (simp add: carsInScene_def)
    with kept have "oid (heap w obj) \<in> set (idsOf w (cars w))"
      by (auto simp: retiredIds_def)
    then show ?thesis by (simp add: id)
  qed
qed

lemma updateCars_meshed: "carsMeshed (updateCars w)"
  unfolding carsMeshed_def
  by (auto simp: updateCars_unfold fold_placeCar_meshed)

lemma updateCars_again:
  assumes "sceneTracksCars w" and "carsMeshed w"
  shows "sceneObjects (updateCars w) = sceneObjects w"
    and "vao (heap (updateCars w) r) = vao (heap w r)"
proof -
  have 1: "fold (retireCar (idsOf w (cars w))) (carsInScene w) w = w"
    using assms(1) by (rule carsInScene_noop)
  have 2: "\<forall>c \<in> set (cars w). \<not> (vao (heap w c) = None \<and> length (carModels w) > 0)"
    using assms(2) by (auto simp: carsMeshed_def)
  from fold_placeCar_noop [OF 2] 1
  show "sceneObjects (updateCars w) = sceneObjects w" "vao (heap (updateCars w) r) = vao (heap w r)"
    by (simp_all add: updateCars_def Let_def)
qed

subsection \<open>The same snapshot twice\<close>

lemma fold_trackCar_known:
  assumes "cid ` set ps \<subseteq> set (idsOf w (cars w))"
  shows "cars (fold trackCar ps w) = cars w \<and> nextRef (fold trackCar ps w) = nextRef w
       \<and> (\<forall>r. oid (heap (fold trackCar ps w) r) = oid (heap w r)
              \<and> vao (heap (fold trackCar ps w) r) = vao (heap w r))"
  using assms
proof (induction ps arbitrary: w)
  case Nil
  then show ?case by simp
next
  case (Cons p ps)
  from Cons.prems have "cid p \<in> set (idsOf w (cars w))" by simp
  then have "find (\<lambda>r. oid (heap w r) = cid p) (cars w) \<noteq> None"
    by (auto simp: find_None_iff idsOf_def)
  then obtain r where found: "find (\<lambda>r. oid (heap w r) = cid p) (cars w) = Some r" by blast
  note f = trackCar_found [OF found]
  have "idsOf (trackCar p w) (cars (trackCar p w)) = idsOf w (cars w)"
    by (simp add: idsOf_def f)
  with Cons.prems have "cid ` set ps \<subseteq> set (idsOf (trackCar p w) (cars (trackCar p w)))" by simp
  from Cons.IH [OF this] show ?case by (simp add: f)
qed

lemma getCars_again:
  assumes "set (idsOf w (cars w)) = cid ` set ps"
  shows "cars (getCars (Ok ps) w) = cars w" "nextRef (getCars (Ok ps) w) = nextRef w"
    "sceneObjects (getCars (Ok ps) w) = sceneObjects w" "carModels (getCars (Ok ps) w) = carModels w"
    "oid (heap (getCars (Ok ps) w) r) = oid (heap w r)"
    "vao (heap (getCars (Ok ps) w) r) = vao (heap w r)"
proof -
  have "\<forall>r \<in> set (cars w). oid (heap w r) \<in> set (map cid ps)"
    using assms by (auto simp: idsOf_def)
  then have s: "spliceGone (map cid ps) (length (cars w)) w = w"
    by (intro spliceGone_console_same) simp_all
  have sub: "cid ` set ps \<subseteq> set (idsOf w (cars w))" using assms by simp
  note k = fold_trackCar_known [OF sub]
  obtain h n cs lg where fr: "getCars (Ok ps) w = w\<lparr>heap := h, nextRef := n, cars := cs, console := lg\<rparr>"
    using getCars_frame by blast
  show "cars (getCars (Ok ps) w) = cars w" "nextRef (getCars (Ok ps) w) = nextRef w"
    "oid (heap (getCars (Ok ps) w) r) = oid (heap w r)"
    "vao (heap (getCars (Ok ps) w) r) = vao (heap w r)"
    using k by (simp_all add: getCars_def s)
  show "sceneObjects (getCars (Ok ps) w) = sceneObjects w" "carModels (getCars (Ok ps) w) = carModels w"
    by (simp_all add: fr)
qed

text \<open>
  C4. Starting from any state whose tracked cars were allocated, apply one snapshot
  through \<open>getCars\<close> and \<open>updateCars\<close>, and then the same snapshot once more. The second
  application allocates no object and leaves the \<open>cars\<close> array and the scene exactly as
  the first left them, with the same identities.
\<close>

theorem reconciliation_idempotent:
  assumes "carsAllocated w"
    and "w1 = updateCars (getCars (Ok positions) w)"
    and "w2 = updateCars (getCars (Ok positions) w1)"
  shows "cars w2 = cars w1 \<and> sceneObjects w2 = sceneObjects w1 \<and> nextRef w2 = nextRef w1
       \<and> idsOf w2 (cars w2) = idsOf w1 (cars w1)
       \<and> idsOf w2 (sceneObjects w2) = idsOf w1 (sceneObjects w1)"
proof -
  let ?v2 = "getCars (Ok positions) w1"
  have ids1: "set (idsOf w1 (cars w1)) = cid ` set positions"
    unfolding assms(2) using getCars_ids [OF assms(1), of positions] by simp
  note again = getCars_again [OF ids1]
  have tr1: "sceneTracksCars w1" and me1: "carsMeshed w1"
    unfolding assms(2) by (rule updateCars_tracks, rule updateCars_meshed)
  have car: "hasCarVAO ?v2 r = hasCarVAO w1 r" for r
    by (rule hasCarVAO_cong) (simp_all add: again)
  have ids2: "idsOf ?v2 rs = idsOf w1 rs" for rs
    by (simp add: idsOf_def again)
  have tr2: "sceneTracksCars ?v2"
    using tr1 by (simp add: sceneTracksCars_def again car ids2)
  have me2: "carsMeshed ?v2"
    using me1 by (simp add: carsMeshed_def again)
  have sc: "sceneObjects w2 = sceneObjects w1"
    unfolding assms(3) using updateCars_again(1) [OF tr2 me2] by (simp add: again)
  have cs: "cars w2 = cars w1" and nr: "nextRef w2 = nextRef w1"
    unfolding assms(3) by (simp_all add: again)
  have id: "idsOf w2 rs = idsOf w1 rs" for rs
    unfolding assms(3) by (simp add: ids2)
  from sc cs nr id show ?thesis by simp
qed

lemma onceApplied_facts:
  "cars onceApplied = [0, 1]" "sceneObjects onceApplied = [0, 1]" "nextRef onceApplied = 2"
  "idsOf onceApplied [0, 1] = [''c1'', ''c2'']"
  by (simp_all add: onceApplied_def twoCars_def startWorld_def emptyWorld_def getCars_def trackCar_def
      carAt_def Object3D_def posArray_def alloc_def updateCars_def placeCar_def retireCar_def
      carsInScene_def hasCarVAO_def idsOf_def addObject_def removeObject_def updateCarRotation_def
      randomCarModel_def demoModels_def Let_def)

theorem reconciliation_idempotent_witness:
  "carsAllocated startWorld
   \<and> cars twiceApplied = [0, 1] \<and> sceneObjects twiceApplied = [0, 1] \<and> nextRef twiceApplied = 2
   \<and> idsOf twiceApplied (cars twiceApplied) = [''c1'', ''c2'']"
proof -
  have a: "carsAllocated startWorld"
    by (simp add: carsAllocated_def startWorld_def emptyWorld_def)
  note inst = reconciliation_idempotent [OF a onceApplied_def twiceApplied_def]
  from inst have c: "cars twiceApplied = [0, 1]"
    unfolding onceApplied_facts(1) by (rule conjunct1)
  from inst have s: "sceneObjects twiceApplied = [0, 1]"
    unfolding onceApplied_facts(2) by blast
  from inst have n: "nextRef twiceApplied = 2"
    unfolding onceApplied_facts(3) by blast
  from inst have "idsOf twiceApplied (cars twiceApplied) = idsOf onceApplied (cars onceApplied)"
    by blast
  then have i: "idsOf twiceApplied (cars twiceApplied) = [''c1'', ''c2'']"
    unfolding onceApplied_facts(1) onceApplied_facts(4) .
  from a c s n i show ?thesis by (intro conjI)
qed

section \<open>The scene follows the snapshots\<close>

subsection \<open>What \<open>getCars\<close> leaves alone\<close>

lemma trackCar_stable:
  assumes "carsAllocated w"
  shows "nextRef w \<le> nextRef (trackCar p w)"
    and "r < nextRef w \<Longrightarrow> oid (heap (trackCar p w) r) = oid (heap w r)"
    and "r < nextRef w \<Longrightarrow> vao (heap (trackCar p w) r) = vao (heap w r)"
    and "r \<in> set (cars (trackCar p w)) \<Longrightarrow> r \<in> set (cars w) \<or> vao (heap (trackCar p w) r) = None"
proof -
  have "nextRef w \<le> nextRef (trackCar p w)
      \<and> (r < nextRef w \<longrightarrow> oid (heap (trackCar p w) r) = oid (heap w r)
                            \<and> vao (heap (trackCar p w) r) = vao (heap w r))
      \<and> (r \<in> set (cars (trackCar p w)) \<longrightarrow> r \<in> set (cars w) \<or> vao (heap (trackCar p w) r) = None)"
  proof (cases rule: find_cases [of "\<lambda>r. oid (heap w r) = cid p" "cars w"])
    case (found x)
    then show ?thesis by (simp add: trackCar_found)
  next
    case missing
    then show ?thesis by (auto simp: trackCar_new)
  qed
  then show "nextRef w \<le> nextRef (trackCar p w)"
    and "r < nextRef w \<Longrightarrow> oid (heap (trackCar p w) r) = oid (heap w r)"
    and "r < nextRef w \<Longrightarrow> vao (heap (trackCar p w) r) = vao (heap w r)"
    and "r \<in> set (cars (trackCar p w)) \<Longrightarrow> r \<in> set (cars w) \<or> vao (heap (trackCar p w) r) = None"
    by simp_all
qed

lemma fold_trackCar_stable:
  assumes "carsAllocated w"
  shows "nextRef w \<le> nextRef (fold trackCar ps w)
       \<and> (\<forall>r < nextRef w. oid (heap (fold trackCar ps w) r) = oid (heap w r)
                          \<and> vao (heap (fold trackCar ps w) r) = vao (heap w r))
       \<and> (\<forall>r \<in> set (cars (fold trackCar ps w)). r \<in> set (cars w) \<or> vao (heap (fold trackCar ps w) r) = None)"
  using assms
proof (induction ps arbitrary: w)
  case Nil
  then show ?case by simp
next
  case (Cons p ps)
  let ?w1 = "trackCar p w"
  let ?v = "fold trackCar ps ?w1"
  have a1: "carsAllocated ?w1" using Cons.prems by (rule trackCar_allocated)
  note st = trackCar_stable [OF Cons.prems, where p = p]
  note ih = Cons.IH [OF a1]
  from ih have le: "nextRef ?w1 \<le> nextRef ?v" by (rule conjunct1)
  have same: "oid (heap ?v r) = oid (heap ?w1 r) \<and> vao (heap ?v r) = vao (heap ?w1 r)"
    if "r < nextRef ?w1" for r
    using ih that by simp
  have new: "r \<in> set (cars ?w1) \<or> vao (heap ?v r) = None" if "r \<in> set (cars ?v)" for r
    by (rule ih [THEN conjunct2, THEN conjunct2, rule_format, OF that])
  have 1: "nextRef w \<le> nextRef ?v" using st(1) le by simp
  have 2: "oid (heap ?v r) = oid (heap w r) \<and> vao (heap ?v r) = vao (heap w r)" if "r < nextRef w" for r
  proof -
    from that st(1) have "r < nextRef ?w1" by simp
    from same [OF this] st(2,3) [OF that] show ?thesis by simp
  qed
  have 3: "r \<in> set (cars w) \<or> vao (heap ?v r) = None" if "r \<in> set (cars ?v)" for r
  proof -
    from new [OF that] show ?thesis
    proof
      assume in1: "r \<in> set (cars ?w1)"
      with a1 have "r < nextRef ?w1" by (simp add: carsAllocated_def)
      from same [OF this] st(4) [OF in1] show ?thesis by auto
    next
      assume "vao (heap ?v r) = None"
      then show ?thesis ..
    qed
  qed
  from 1 2 3 show ?case by simp
qed

lemma getCars_stable:
  assumes "carsAllocated w"
  shows "carsAllocated (getCars (Ok ps) w)"
    and "nextRef w \<le> nextRef (getCars (Ok ps) w)"
    and "r < nextRef w \<Longrightarrow> oid (heap (getCars (Ok ps) w) r) = oid (heap w r)"
    and "r < nextRef w \<Longrightarrow> vao (heap (getCars (Ok ps) w) r) = vao (heap w r)"
    and "r \<in> set (cars (getCars (Ok ps) w)) \<Longrightarrow> r \<in> set (cars w) \<or> vao (heap (getCars (Ok ps) w) r) = None"
proof -
  let ?s = "spliceGone (map cid ps) (length (cars w)) w"
  have as: "carsAllocated ?s" using assms by (rule spliceGone_allocated)
  note f = fold_trackCar_stable [OF as, where ps = ps]
  show "carsAllocated (getCars (Ok ps) w)"
    using as by (simp add: getCars_def fold_trackCar_allocated)
  show "nextRef w \<le> nextRef (getCars (Ok ps) w)" using f by (simp add: getCars_def)
  show "r < nextRef w \<Longrightarrow> oid (heap (getCars (Ok ps) w) r) = oid (heap w r)"
    using f by (simp add: getCars_def)
  show "r < nextRef w \<Longrightarrow> vao (heap (getCars (Ok ps) w) r) = vao (heap w r)"
    using f by (simp add: getCars_def)
  show "r \<in> set (cars (getCars (Ok ps) w)) \<Longrightarrow> r \<in> set (cars w) \<or> vao (heap (getCars (Ok ps) w) r) = None"
    using f by (auto simp: getCars_def spliceGone_all)
qed

lemma getCars_others:
  "sceneObjects (getCars resp w) = sceneObjects w" "carModels (getCars resp w) = carModels w"
  "obstacles (getCars resp w) = obstacles w" "roads (getCars resp w) = roads w"
  "destinations (getCars resp w) = destinations w"
proof -
  obtain h n cs lg where "getCars resp w = w\<lparr>heap := h, nextRef := n, cars := cs, console := lg\<rparr>"
    using getCars_frame by blast
  then show "sceneObjects (getCars resp w) = sceneObjects w" "carModels (getCars resp w) = carModels w"
    "obstacles (getCars resp w) = obstacles w" "roads (getCars resp w) = roads w"
    "destinations (getCars resp w) = destinations w"
    by simp_all
qed

lemma updateCars_others:
  "obstacles (updateCars w) = obstacles w" "roads (updateCars w) = roads w"
  "destinations (updateCars w) = destinations w"
proof -
  obtain h so rc where "updateCars w = w\<lparr>heap := h, sceneObjects := so, randomCalls := rc\<rparr>"
    using updateCars_frame by blast
  then show "obstacles (updateCars w) = obstacles w" "roads (updateCars w) = roads w"
    "destinations (updateCars w) = destinations w"
    by simp_all
qed

lemma distinct_ids_filter:
  "distinct (idsOf w rs) \<Longrightarrow> distinct (idsOf w (filter P rs))"
  unfolding idsOf_def by (rule distinct_map_filter)

lemma interpolateCars_others:
  "obstacles (interpolateCars f w) = obstacles w" "roads (interpolateCars f w) = roads w"
  "destinations (interpolateCars f w) = destinations w" "elapsed (interpolateCars f w) = elapsed w"
proof -
  obtain h where "interpolateCars f w = w\<lparr>heap := h\<rparr>" using interpolateCars_frame by blast
  then show "obstacles (interpolateCars f w) = obstacles w" "roads (interpolateCars f w) = roads w"
    "destinations (interpolateCars f w) = destinations w" "elapsed (interpolateCars f w) = elapsed w"
    by simp_all
qed

lemma updateTrafficLightSpheres_others:
  "obstacles (updateTrafficLightSpheres w) = obstacles w" "roads (updateTrafficLightSpheres w) = roads w"
  "destinations (updateTrafficLightSpheres w) = destinations w"
proof -
  obtain h where "updateTrafficLightSpheres w = w\<lparr>heap := h\<rparr>"
    using updateTrafficLightSpheres_frame by blast
  then show "obstacles (updateTrafficLightSpheres w) = obstacles w"
    "roads (updateTrafficLightSpheres w) = roads w"
    "destinations (updateTrafficLightSpheres w) = destinations w"
    by simp_all
qed

lemma getTrafficLights_others:
  "obstacles (getTrafficLights resp w) = obstacles w" "roads (getTrafficLights resp w) = roads w"
  "destinations (getTrafficLights resp w) = destinations w"
proof -
  obtain h n ls lg where
    "getTrafficLights resp w = w\<lparr>heap := h, nextRef := n, trafficLights := ls, console := lg\<rparr>"
    using getTrafficLights_frame by blast
  then show "obstacles (getTrafficLights resp w) = obstacles w" "roads (getTrafficLights resp w) = roads w"
    "destinations (getTrafficLights resp w) = destinations w"
    by simp_all
qed

lemma update_others:
  "obstacles (update ru rc rl w) = obstacles w" "roads (update ru rc rl w) = roads w"
  "destinations (update ru rc rl w) = destinations w"
  by (cases ru; simp add: update_def getTrafficLights_others getCars_others)+

lemma drawScene_statics:
  "obstacles (drawScene now ru rc rl w) = obstacles w \<and> roads (drawScene now ru rc rl w) = roads w
   \<and> destinations (drawScene now ru rc rl w) = destinations w"
  by (simp add: drawScene_def Let_def updateTrafficLightSpheres_others updateCars_others
      update_others interpolateCars_others)

lemma updateCars_vao_kept:
  "vao (heap w r) \<noteq> None \<Longrightarrow> vao (heap (updateCars w) r) = vao (heap w r)"
  by (simp add: updateCars_unfold fold_placeCar_vao_kept)

lemma updateCars_oid: "oid (heap (updateCars w) r) = oid (heap w r)"
  using updateCars_fields(4) [of w "[r]"] by (simp add: idsOf_def)

text \<open>
  What \<open>getCars\<close> followed by \<open>updateCars\<close> guarantees in every state that satisfies
  the scene invariant: the tracked cars and the scene objects were allocated, the scene
  holds no identity twice, and every tracked car that has a mesh has its identity in the
  scene (all true before the first snapshot, and true again afterwards). The ids in the
  \<open>cars\<close> array are exactly the ids of the snapshot; every scene object that bears the
  VAO of a preloaded car model and a non-empty id has its id in the snapshot; if at least
  one car model was preloaded, every id of the snapshot is the identity of a scene object;
  a scene object that does not bear the VAO of a preloaded car model is never removed,
  nor is one whose id the snapshot reports; and neither this step nor a whole frame
  changes the arrays of the static categories.
\<close>

theorem cars_follow_snapshot:
  assumes "sceneInvariant w" and "w' = updateCars (getCars (Ok positions) w)"
  shows "sceneInvariant w'
       \<and> set (idsOf w' (cars w')) = cid ` set positions
       \<and> (\<forall>obj \<in> set (sceneObjects w'). oid (heap w' obj) \<noteq> [] \<and> hasCarVAO w' obj
             \<longrightarrow> oid (heap w' obj) \<in> cid ` set positions)
       \<and> (length (carModels w) > 0 \<longrightarrow> cid ` set positions \<subseteq> set (idsOf w' (sceneObjects w')))
       \<and> (\<forall>obj \<in> set (sceneObjects w). \<not> hasCarVAO w obj \<longrightarrow> obj \<in> set (sceneObjects w'))
       \<and> (\<forall>obj \<in> set (sceneObjects w). oid (heap w obj) \<in> cid ` set positions
             \<longrightarrow> obj \<in> set (sceneObjects w'))
       \<and> obstacles w' = obstacles w \<and> roads w' = roads w \<and> destinations w' = destinations w
       \<and> obstacles (drawScene now ru rc rl w) = obstacles w
       \<and> roads (drawScene now ru rc rl w) = roads w
       \<and> destinations (drawScene now ru rc rl w) = destinations w"
proof -
  let ?v = "getCars (Ok positions) w"
  let ?cur = "idsOf ?v (cars ?v)"
  let ?R = "retiredIds ?v ?cur (carsInScene ?v)"
  let ?u = "?v\<lparr>sceneObjects := filter (\<lambda>obj. oid (heap ?v obj) \<notin> ?R) (sceneObjects ?v)\<rparr>"
  from assms(1) have ca: "carsAllocated w" and sa: "sceneAllocated w"
    and di: "distinct (idsOf w (sceneObjects w))" and ms: "meshedCarsShown w"
    by (simp_all add: sceneInvariant_def)
  note st = getCars_stable [OF ca, where ps = positions]
  note ot = getCars_others [of "Ok positions" w]
  have w': "w' = fold placeCar (cars ?v) ?u" unfolding assms(2) by (rule updateCars_unfold)
  have cars': "cars w' = cars ?v" and next': "nextRef w' = nextRef ?v"
    and ids': "\<And>rs. idsOf w' rs = idsOf ?v rs" and models': "carModels w' = carModels w"
    unfolding assms(2) by (simp_all add: ot)
  have oid': "oid (heap w' r) = oid (heap ?v r)" for r
    using ids' [of "[r]"] by (simp add: idsOf_def)
  have cur: "set ?cur = cid ` set positions" using ca by (rule getCars_ids)
  have sceneIds: "idsOf ?v (sceneObjects w) = idsOf w (sceneObjects w)"
    using sa st(3) by (simp add: idsOf_def sceneAllocated_def)
  have grow: "set (sceneObjects ?u) \<subseteq> set (sceneObjects w')"
    and bound: "set (sceneObjects w') \<subseteq> set (sceneObjects ?u) \<union> set (cars ?v)"
    unfolding w' using fold_placeCar_scene [of ?u "cars ?v"] by simp_all
  have carVAO: "hasCarVAO ?v obj = hasCarVAO w obj" if "obj \<in> set (sceneObjects w)" for obj
  proof (rule hasCarVAO_cong)
    from that sa have "obj < nextRef w" by (simp add: sceneAllocated_def)
    then show "vao (heap ?v obj) = vao (heap w obj)" by (rule st(4))
    show "carModels ?v = carModels w" by (rule ot(2))
  qed
  \<comment> \<open>the invariant afterwards\<close>
  have 1: "carsAllocated w'"
    using st(1) by (simp add: carsAllocated_def cars' next')
  have 2: "sceneAllocated w'"
    unfolding sceneAllocated_def
  proof
    fix obj assume "obj \<in> set (sceneObjects w')"
    with bound have "obj \<in> set (sceneObjects w) \<or> obj \<in> set (cars ?v)" by (auto simp: ot)
    then show "obj < nextRef w'"
    proof
      assume "obj \<in> set (sceneObjects w)"
      with sa st(2) show ?thesis by (auto simp: sceneAllocated_def next')
    next
      assume "obj \<in> set (cars ?v)"
      with st(1) show ?thesis by (simp add: carsAllocated_def next')
    qed
  qed
  have "distinct (idsOf ?v (sceneObjects ?v))" using di by (simp add: ot sceneIds)
  then have "distinct (idsOf ?v (sceneObjects ?u))" by (simp add: distinct_ids_filter)
  then have "distinct (idsOf ?u (sceneObjects ?u))" by (simp add: idsOf_def)
  then have "distinct (idsOf ?u (sceneObjects (fold placeCar (cars ?v) ?u)))"
    by (rule fold_placeCar_distinct)
  then have "distinct (idsOf ?v (sceneObjects w'))"
    unfolding w' by (simp add: idsOf_def)
  then have 3: "distinct (idsOf w' (sceneObjects w'))"
    by (simp only: ids')
  have 4: "meshedCarsShown w'"
    unfolding meshedCarsShown_def
  proof (intro ballI impI)
    fix car assume "car \<in> set (cars w')" and mesh: "vao (heap w' car) \<noteq> None"
    then have car: "car \<in> set (cars ?v)" by (simp add: cars')
    from fold_placeCar_shown [OF car, of ?u] mesh
    have "vao (heap ?v car) \<noteq> None \<or> oid (heap ?v car) \<in> set (idsOf ?v (sceneObjects w'))"
      unfolding w' by (simp add: idsOf_def)
    then show "oid (heap w' car) \<in> set (idsOf w' (sceneObjects w'))"
    proof
      assume had: "vao (heap ?v car) \<noteq> None"
      with st(5) [OF car] have old: "car \<in> set (cars w)" by blast
      with ca have lt: "car < nextRef w" by (simp add: carsAllocated_def)
      with had st(4) have "vao (heap w car) \<noteq> None" by simp
      with ms old have "oid (heap w car) \<in> set (idsOf w (sceneObjects w))"
        by (simp add: meshedCarsShown_def)
      then obtain obj where obj: "obj \<in> set (sceneObjects w)" and same: "oid (heap w obj) = oid (heap w car)"
        by (auto simp: idsOf_def)
      from obj sa have "obj < nextRef w" by (simp add: sceneAllocated_def)
      with same lt st(3) have same': "oid (heap ?v obj) = oid (heap ?v car)" by simp
      from car have "oid (heap ?v car) \<in> set ?cur" by (simp add: idsOf_def)
      then have "oid (heap ?v car) \<notin> ?R" by (auto simp: retiredIds_def)
      with obj same' have "obj \<in> set (sceneObjects ?u)" by (simp add: ot)
      with grow have "obj \<in> set (sceneObjects w')" by blast
      then have "oid (heap ?v obj) \<in> (\<lambda>r. oid (heap ?v r)) ` set (sceneObjects w')"
        by (rule imageI)
      then have "oid (heap ?v car) \<in> set (idsOf ?v (sceneObjects w'))"
        unfolding same' by (simp add: idsOf_def)
      then show ?thesis by (simp only: oid' ids')
    next
      assume "oid (heap ?v car) \<in> set (idsOf ?v (sceneObjects w'))"
      then show ?thesis by (simp only: oid' ids')
    qed
  qed
  from 1 2 3 4 have inv: "sceneInvariant w'" by (simp add: sceneInvariant_def)
  \<comment> \<open>the tracked identities\<close>
  have 5: "set (idsOf w' (cars w')) = cid ` set positions"
    by (simp add: ids' cars' cur)
  have "sceneTracksCars w'" unfolding assms(2) by (rule updateCars_tracks)
  with 5 have 6: "\<forall>obj \<in> set (sceneObjects w'). oid (heap w' obj) \<noteq> [] \<and> hasCarVAO w' obj
             \<longrightarrow> oid (heap w' obj) \<in> cid ` set positions"
    by (simp add: sceneTracksCars_def)
  have 7: "length (carModels w) > 0 \<longrightarrow> cid ` set positions \<subseteq> set (idsOf w' (sceneObjects w'))"
  proof
    assume loaded: "length (carModels w) > 0"
    have "carsMeshed w'" unfolding assms(2) by (rule updateCars_meshed)
    with loaded have all: "\<forall>car \<in> set (cars w'). vao (heap w' car) \<noteq> None"
      by (simp add: carsMeshed_def models')
    show "cid ` set positions \<subseteq> set (idsOf w' (sceneObjects w'))"
    proof
      fix i assume "i \<in> cid ` set positions"
      with 5 have "i \<in> (\<lambda>r. oid (heap w' r)) ` set (cars w')" by (simp add: idsOf_def)
      then obtain car where car: "car \<in> set (cars w')" and i: "oid (heap w' car) = i"
        by blast
      with all 4 show "i \<in> set (idsOf w' (sceneObjects w'))" by (auto simp: meshedCarsShown_def)
    qed
  qed
  \<comment> \<open>objects that are not cars stay\<close>
  have 8: "\<forall>obj \<in> set (sceneObjects w). \<not> hasCarVAO w obj \<longrightarrow> obj \<in> set (sceneObjects w')"
  proof (intro ballI impI)
    fix obj assume obj: "obj \<in> set (sceneObjects w)" and static: "\<not> hasCarVAO w obj"
    have "oid (heap ?v obj) \<notin> ?R"
    proof
      assume "oid (heap ?v obj) \<in> ?R"
      then obtain c where c: "c \<in> set (carsInScene ?v)" and same: "oid (heap ?v c) = oid (heap ?v obj)"
        by (auto simp: retiredIds_def)
      from c have cin: "c \<in> set (sceneObjects w)" and cvao: "hasCarVAO ?v c"
        by (simp_all add: carsInScene_def ot)
      from di have "distinct (idsOf ?v (sceneObjects w))" by (simp only: sceneIds)
      then have "inj_on (\<lambda>r. oid (heap ?v r)) (set (sceneObjects w))"
        by (simp add: idsOf_def distinct_map)
      with cin obj same have "c = obj" by (auto dest: inj_onD)
      with cvao carVAO [OF obj] static show False by simp
    qed
    with obj have "obj \<in> set (sceneObjects ?u)" by (simp add: ot)
    with grow show "obj \<in> set (sceneObjects w')" by blast
  qed
  have stay: "\<forall>obj \<in> set (sceneObjects w). oid (heap w obj) \<in> cid ` set positions
             \<longrightarrow> obj \<in> set (sceneObjects w')"
  proof (intro ballI impI)
    fix obj assume obj: "obj \<in> set (sceneObjects w)" and rep: "oid (heap w obj) \<in> cid ` set positions"
    from obj sa have "obj < nextRef w" by (simp add: sceneAllocated_def)
    with rep st(3) cur have "oid (heap ?v obj) \<in> set ?cur" by simp
    then have "oid (heap ?v obj) \<notin> ?R" by (auto simp: retiredIds_def)
    with obj have "obj \<in> set (sceneObjects ?u)" by (simp add: ot)
    with grow show "obj \<in> set (sceneObjects w')" by blast
  qed
  have 9: "obstacles w' = obstacles w \<and> roads w' = roads w \<and> destinations w' = destinations w"
    unfolding assms(2) by (simp add: updateCars_others getCars_others)
  from inv 5 6 7 8 stay 9 drawScene_statics [of now ru rc rl w] show ?thesis by (intro conjI) simp_all
qed

lemma cityStart_invariant: "sceneInvariant cityStart"
  unfolding sceneInvariant_def carsAllocated_def sceneAllocated_def meshedCarsShown_def
  by code_simp

lemma cityStart_road:
  "0 \<in> set (sceneObjects cityStart)" "\<not> hasCarVAO cityStart 0" "length (carModels cityStart) > 0"
  by code_simp+

lemma cityOnce_facts:
  "sceneObjects cityOnce = [0, 1, 2]" "vao (heap cityOnce 0) = Some 0" "carModels cityOnce = demoModels"
  "idsOf cityOnce [0, 1, 2] = [''r1'', ''c1'', ''c2'']"
  by (simp_all add: cityOnce_def cityStart_def twoCars_def startWorld_def emptyWorld_def getCars_def
      trackCar_def getRoads_def pushRoad_def setupRoads_def setupRoad_def
      carAt_def Object3D_def posArray_def alloc_def updateCars_def placeCar_def retireCar_def
      carsInScene_def hasCarVAO_def idsOf_def addObject_def removeObject_def updateCarRotation_def
      randomCarModel_def demoModels_def Let_def)

lemma cityOnce_car:
  "nextRef cityOnce = 3" "vao (heap cityOnce 2) = Some 1" "oid (heap cityOnce 2) = ''c2''"
  by (simp_all add: cityOnce_def cityStart_def twoCars_def startWorld_def emptyWorld_def getCars_def
      trackCar_def getRoads_def pushRoad_def setupRoads_def setupRoad_def
      carAt_def Object3D_def posArray_def alloc_def updateCars_def placeCar_def retireCar_def
      carsInScene_def hasCarVAO_def idsOf_def addObject_def removeObject_def updateCarRotation_def
      randomCarModel_def demoModels_def Let_def)

theorem cars_follow_snapshot_example:
  "sceneInvariant cityStart \<and> sceneInvariant cityOnce \<and> sceneInvariant cityTwice
   \<and> sceneObjects cityOnce = [0, 1, 2] \<and> idsOf cityOnce [0, 1, 2] = [''r1'', ''c1'', ''c2'']
   \<and> set (idsOf cityTwice (cars cityTwice)) = {''c2'', ''c3''}
   \<and> length (carModels cityOnce) > 0
   \<and> ''c2'' \<in> set (idsOf cityTwice (sceneObjects cityTwice))
   \<and> ''c3'' \<in> set (idsOf cityTwice (sceneObjects cityTwice))
   \<and> 2 \<in> set (sceneObjects cityTwice) \<and> oid (heap cityTwice 2) \<noteq> [] \<and> hasCarVAO cityTwice 2
   \<and> oid (heap cityTwice 2) \<in> {''c2'', ''c3''}
   \<and> 0 \<in> set (sceneObjects cityOnce) \<and> \<not> hasCarVAO cityOnce 0 \<and> 0 \<in> set (sceneObjects cityTwice)"
proof -
  let ?later = "[carAt ''c2'' 3 4 None, carAt ''c3'' 0 0 (Some ''Left'')]"
  note first = cars_follow_snapshot [OF cityStart_invariant cityOnce_def]
  from first have inv1: "sceneInvariant cityOnce" by (rule conjunct1)
  note second = cars_follow_snapshot [OF inv1 cityTwice_def]
  from second have inv2: "sceneInvariant cityTwice" by (rule conjunct1)
  have snap: "cid ` set ?later = {''c2'', ''c3''}"
    by (simp add: carAt_def)
  have loaded: "length (carModels cityOnce) > 0"
    by (simp add: cityOnce_facts demoModels_def)
  have road: "0 \<in> set (sceneObjects cityOnce)" and cube: "\<not> hasCarVAO cityOnce 0"
    by (simp_all add: cityOnce_facts hasCarVAO_def demoModels_def)
  from inv1 have alloc: "carsAllocated cityOnce" by (simp add: sceneInvariant_def)
  have lt: "2 < nextRef cityOnce" by (simp add: cityOnce_car)
  have vao: "vao (heap cityTwice 2) = Some 1"
    unfolding cityTwice_def
    using getCars_stable(4) [OF alloc lt, of ?later] cityOnce_car(2)
    by (simp add: updateCars_vao_kept)
  have oid: "oid (heap cityTwice 2) = ''c2''"
    unfolding cityTwice_def
    using getCars_stable(3) [OF alloc lt, of ?later] cityOnce_car(3)
    by (simp add: updateCars_oid)
  have "carModels cityTwice = demoModels"
    unfolding cityTwice_def by (simp add: getCars_others cityOnce_facts)
  with vao have mesh: "hasCarVAO cityTwice 2" by (simp add: hasCarVAO_def demoModels_def)
  from oid have named: "oid (heap cityTwice 2) \<noteq> []" by simp
  have "2 \<in> set (sceneObjects cityOnce)" and "oid (heap cityOnce 2) \<in> cid ` set ?later"
    by (simp_all add: cityOnce_facts cityOnce_car carAt_def)
  with second have car: "2 \<in> set (sceneObjects cityTwice)" by blast
  from second have ids: "set (idsOf cityTwice (cars cityTwice)) = {''c2'', ''c3''}"
    unfolding snap by blast
  from second loaded have "{''c2'', ''c3''} \<subseteq> set (idsOf cityTwice (sceneObjects cityTwice))"
    unfolding snap by blast
  then have shown: "''c2'' \<in> set (idsOf cityTwice (sceneObjects cityTwice))"
    "''c3'' \<in> set (idsOf cityTwice (sceneObjects cityTwice))" by simp_all
  from second car named mesh have tracked: "oid (heap cityTwice 2) \<in> {''c2'', ''c3''}"
    unfolding snap by blast
  from second road cube have kept: "0 \<in> set (sceneObjects cityTwice)" by blast
  from cityStart_invariant inv1 inv2 cityOnce_facts(1,4) ids loaded shown car named
    mesh tracked road cube kept
  show ?thesis by (intro conjI)
qed

lemma fallback_facts:
  "carModels fallbackStart = []" "sceneObjects fallbackStart = [0]"
  "cars fallbackGone = []" "sceneObjects fallbackGone = [0]" "oid (heap fallbackGone 0) = ''c1''"
  "cars fallbackNew = [0, 1]" "sceneObjects fallbackNew = [0]" "oid (heap fallbackNew 1) = ''c2''"
  "oid (heap fallbackNew 0) = ''c1''"
  by (simp_all add: fallbackStart_def fallbackGone_def fallbackNew_def emptyWorld_def getCars_def
      trackCar_def setupCars_def setupCar_def
      carAt_def Object3D_def posArray_def alloc_def updateCars_def placeCar_def retireCar_def
      carsInScene_def hasCarVAO_def idsOf_def addObject_def removeObject_def updateCarRotation_def
      Let_def)

text \<open>
  C1 fails on the code when no car model was preloaded. \<open>setupObjects\<close> then draws the
  cars of the first snapshot with the base cube. When the next snapshot is empty,
  \<open>getCars\<close> empties the \<open>cars\<close> array, but \<open>updateCars\<close> recognises no object of the
  scene as a car and removes nothing: the object of \<open>c1\<close> is still in the scene. When
  the next snapshot reports a new car \<open>c2\<close>, it is pushed to \<open>cars\<close> and never added
  to the scene.
\<close>

theorem updateCars_without_models:
  "carModels fallbackStart = [] \<and> sceneObjects fallbackStart = [0]
   \<and> cars fallbackGone = [] \<and> sceneObjects fallbackGone = [0] \<and> oid (heap fallbackGone 0) = ''c1''
   \<and> ''c1'' \<notin> cid ` set ([] :: carData list)
   \<and> cars fallbackNew = [0, 1] \<and> oid (heap fallbackNew 1) = ''c2''
   \<and> ''c2'' \<notin> set (idsOf fallbackNew (sceneObjects fallbackNew))"
  using fallback_facts by (simp add: idsOf_def)

section \<open>Target yaw after a poll\<close>

subsection \<open>What \<open>getCars\<close> changes in a tracked car\<close>

lemma trackCar_nextRef_le: "nextRef w \<le> nextRef (trackCar p w)"
  by (cases rule: find_cases [of "\<lambda>r. oid (heap w r) = cid p" "cars w"])
     (simp_all add: trackCar_found trackCar_new)

lemma trackCar_update:
  assumes "find (\<lambda>r. oid (heap w r) = cid p) (cars w) = Some r"
  shows "heap (trackCar p w) r = (heap w r)
           \<lparr>oldPosArray := Some (position (heap w r)), position := (cx p, cy p, cz p),
            direction := cdirection p, futurePos := Some (futureX p, cy p, futureZ p)\<rparr>"
  using assms by (simp add: trackCar_def Let_def posArray_def)

lemma trackCar_insensitive:
  assumes g: "\<And>obj a b c d.
      g (obj\<lparr>oldPosArray := a, position := b, direction := c, futurePos := d\<rparr>) = g obj"
    and r: "r < nextRef w"
  shows "g (heap (trackCar p w) r) = g (heap w r)"
proof (cases rule: find_cases [of "\<lambda>r. oid (heap w r) = cid p" "cars w"])
  case (found x)
  show ?thesis
  proof (cases "r = x")
    case True
    with trackCar_update [OF found(1)] g show ?thesis by simp
  next
    case False
    with found show ?thesis by (simp add: trackCar_found)
  qed
next
  case missing
  from r have "r \<noteq> nextRef w" by simp
  with missing show ?thesis by (simp add: trackCar_new)
qed

lemma fold_trackCar_insensitive:
  assumes g: "\<And>obj a b c d.
      g (obj\<lparr>oldPosArray := a, position := b, direction := c, futurePos := d\<rparr>) = g obj"
  shows "r < nextRef w \<Longrightarrow>
         r < nextRef (fold trackCar ps w) \<and> g (heap (fold trackCar ps w) r) = g (heap w r)"
proof (induction ps arbitrary: w)
  case Nil
  then show ?case by simp
next
  case (Cons p ps)
  from Cons.prems trackCar_nextRef_le [of w p] have "r < nextRef (trackCar p w)" by simp
  from Cons.IH [OF this] trackCar_insensitive [of g r w p, OF g Cons.prems]
  show ?case by simp
qed

lemma getCars_insensitive:
  assumes g: "\<And>obj a b c d.
      g (obj\<lparr>oldPosArray := a, position := b, direction := c, futurePos := d\<rparr>) = g obj"
    and r: "r < nextRef w"
  shows "r < nextRef (getCars resp w)" and "g (heap (getCars resp w) r) = g (heap w r)"
proof -
  have "r < nextRef (getCars resp w) \<and> g (heap (getCars resp w) r) = g (heap w r)"
  proof (cases resp)
    case (Ok ps)
    let ?s = "spliceGone (map cid ps) (length (cars w)) w"
    from r have "r < nextRef ?s" by simp
    from fold_trackCar_insensitive [of g r ?s ps, OF g this] Ok show ?thesis
      by (simp add: getCars_def)
  qed (use r in \<open>simp_all add: getCars_def\<close>)
  then show "r < nextRef (getCars resp w)" and "g (heap (getCars resp w) r) = g (heap w r)"
    by simp_all
qed

lemma find_distinct:
  assumes "distinct (map f xs)" and "r \<in> set xs"
  shows "find (\<lambda>x. f x = f r) xs = Some r"
  using assms
proof (induction xs)
  case Nil
  then show ?case by simp
next
  case (Cons x xs)
  show ?case
  proof (cases "x = r")
    case True
    then show ?thesis by simp
  next
    case False
    with Cons.prems have "r \<in> set xs" and "f x \<noteq> f r" and "distinct (map f xs)" by auto
    with Cons.IH show ?thesis by simp
  qed
qed

lemma trackCar_tracked:
  assumes "carsDistinct w" and "r \<in> set (cars w)" and "cid p = oid (heap w r)"
  shows "r \<in> set (cars (trackCar p w))"
    and "heap (trackCar p w) r = (heap w r)
           \<lparr>oldPosArray := Some (position (heap w r)), position := (cx p, cy p, cz p),
            direction := cdirection p, futurePos := Some (futureX p, cy p, futureZ p)\<rparr>"
proof -
  from assms(1) have "distinct (map (\<lambda>x. oid (heap w x)) (cars w))"
    by (simp add: carsDistinct_def idsOf_def)
  from find_distinct [OF this assms(2)] assms(3)
  have f: "find (\<lambda>x. oid (heap w x) = cid p) (cars w) = Some r" by simp
  from f assms(2) show "r \<in> set (cars (trackCar p w))" by (simp add: trackCar_found)
  from f show "heap (trackCar p w) r = (heap w r)
           \<lparr>oldPosArray := Some (position (heap w r)), position := (cx p, cy p, cz p),
            direction := cdirection p, futurePos := Some (futureX p, cy p, futureZ p)\<rparr>"
    by (rule trackCar_update)
qed

lemma fold_trackCar_unreported:
  assumes "carsDistinct w" and "r \<in> set (cars w)" and "oid (heap w r) \<notin> cid ` set ps"
  shows "r \<in> set (cars (fold trackCar ps w)) \<and> heap (fold trackCar ps w) r = heap w r"
  using assms
proof (induction ps arbitrary: w)
  case Nil
  then show ?case by simp
next
  case (Cons p ps)
  from Cons.prems(3) have ne: "oid (heap w r) \<noteq> cid p" by auto
  note o = trackCar_other [OF Cons.prems(1,2) ne]
  have d: "carsDistinct (trackCar p w)" using Cons.prems(1) by (rule trackCar_distinct)
  from o Cons.prems(3) have "oid (heap (trackCar p w) r) \<notin> cid ` set ps" by simp
  from Cons.IH [OF d o [THEN conjunct1] this] o show ?case by simp
qed

lemma fold_trackCar_tracked:
  assumes "carsDistinct w" and "r \<in> set (cars w)" and "oid (heap w r) \<in> cid ` set ps"
  shows "r \<in> set (cars (fold trackCar ps w)) \<and> oldPosArray (heap (fold trackCar ps w) r) \<noteq> None"
  using assms
proof (induction ps arbitrary: w rule: rev_induct)
  case Nil
  then show ?case by simp
next
  case (snoc p ps)
  let ?v = "fold trackCar ps w"
  have dv: "carsDistinct ?v" using snoc.prems(1) by (rule fold_trackCar_distinct)
  have inv: "r \<in> set (cars ?v) \<and> oid (heap ?v r) = oid (heap w r)
      \<and> (oid (heap w r) \<in> cid ` set ps \<longrightarrow> oldPosArray (heap ?v r) \<noteq> None)"
  proof (cases "oid (heap w r) \<in> cid ` set ps")
    case True
    have lt: "r < nextRef w" using snoc.prems(1,2) by (simp add: carsDistinct_def carsAllocated_def)
    from fold_trackCar_insensitive [of oid r w ps, OF _ lt] have "oid (heap ?v r) = oid (heap w r)"
      by simp
    with snoc.IH [OF snoc.prems(1,2) True] True show ?thesis by simp
  next
    case False
    from fold_trackCar_unreported [OF snoc.prems(1,2) False] False show ?thesis by simp
  qed
  show ?case
  proof (cases "cid p = oid (heap w r)")
    case True
    with inv have "cid p = oid (heap ?v r)" by simp
    from trackCar_tracked [OF dv inv [THEN conjunct1] this] show ?thesis by simp
  next
    case False
    with snoc.prems(3) have mem: "oid (heap w r) \<in> cid ` set ps" by auto
    from False inv have "oid (heap ?v r) \<noteq> cid p" by simp
    from trackCar_other [OF dv inv [THEN conjunct1] this] inv mem show ?thesis by simp
  qed
qed

lemma fold_trackCar_once:
  assumes "carsDistinct w" and "r \<in> set (cars w)"
    and "filter (\<lambda>c. cid c = oid (heap w r)) ps = [p]"
  shows "heap (fold trackCar ps w) r = (heap w r)
           \<lparr>oldPosArray := Some (position (heap w r)), position := (cx p, cy p, cz p),
            direction := cdirection p, futurePos := Some (futureX p, cy p, futureZ p)\<rparr>"
  using assms
proof (induction ps arbitrary: w)
  case Nil
  then show ?case by simp
next
  case (Cons q qs)
  have d: "carsDistinct (trackCar q w)" using Cons.prems(1) by (rule trackCar_distinct)
  show ?case
  proof (cases "cid q = oid (heap w r)")
    case True
    with Cons.prems(3) have qp: "q = p" and rest: "filter (\<lambda>c. cid c = oid (heap w r)) qs = []"
      by simp_all
    note t = trackCar_tracked [OF Cons.prems(1,2) True]
    have "oid (heap (trackCar q w) r) = oid (heap w r)" by (subst t(2)) simp
    with rest have "oid (heap (trackCar q w) r) \<notin> cid ` set qs"
      by (auto simp: filter_empty_conv)
    from fold_trackCar_unreported [OF d t(1) this] t(2) qp show ?thesis by simp
  next
    case False
    then have ne: "oid (heap w r) \<noteq> cid q" by simp
    note o = trackCar_other [OF Cons.prems(1,2) ne]
    from o have h: "heap (trackCar q w) r = heap w r" by simp
    from False Cons.prems(3)
    have "filter (\<lambda>c. cid c = oid (heap (trackCar q w) r)) qs = [p]" unfolding h by simp
    from Cons.IH [OF d o [THEN conjunct1] this] o show ?thesis by simp
  qed
qed

lemma getCars_tracked:
  assumes "carsDistinct w" and "r \<in> set (cars w)" and "oid (heap w r) \<in> cid ` set ps"
  shows "r \<in> set (cars (getCars (Ok ps) w))"
    and "oldPosArray (heap (getCars (Ok ps) w) r) \<noteq> None"
    and "targetRotY (heap (getCars (Ok ps) w) r) = targetRotY (heap w r)"
    and "vao (heap (getCars (Ok ps) w) r) = vao (heap w r)"
    and "filter (\<lambda>c. cid c = oid (heap w r)) ps = [p] \<Longrightarrow>
           oldPosArray (heap (getCars (Ok ps) w) r) = Some (position (heap w r))
           \<and> position (heap (getCars (Ok ps) w) r) = (cx p, cy p, cz p)"
proof -
  let ?s = "spliceGone (map cid ps) (length (cars w)) w"
  have ds: "carsDistinct ?s" using assms(1) by (rule spliceGone_distinct)
  have rs: "r \<in> set (cars ?s)" using assms(2,3) by (simp add: spliceGone_all)
  have os: "oid (heap ?s r) \<in> cid ` set ps" using assms(3) by simp
  have lt: "r < nextRef w" using assms(1,2) by (simp add: carsDistinct_def carsAllocated_def)
  from fold_trackCar_tracked [OF ds rs os]
  show "r \<in> set (cars (getCars (Ok ps) w))" and "oldPosArray (heap (getCars (Ok ps) w) r) \<noteq> None"
    by (simp_all add: getCars_def)
  show "targetRotY (heap (getCars (Ok ps) w) r) = targetRotY (heap w r)"
    by (rule getCars_insensitive(2) [OF _ lt]) simp
  show "vao (heap (getCars (Ok ps) w) r) = vao (heap w r)"
    by (rule getCars_insensitive(2) [OF _ lt]) simp
  show "oldPosArray (heap (getCars (Ok ps) w) r) = Some (position (heap w r))
           \<and> position (heap (getCars (Ok ps) w) r) = (cx p, cy p, cz p)"
    if "filter (\<lambda>c. cid c = oid (heap w r)) ps = [p]"
  proof -
    from that have "filter (\<lambda>c. cid c = oid (heap ?s r)) ps = [p]" by simp
    from fold_trackCar_once [OF ds rs this] show ?thesis by (simp add: getCars_def)
  qed
qed

subsection \<open>What \<open>updateCars\<close> changes in a car that has its mesh\<close>

lemma fold_placeCar_rotation:
  assumes "distinct cs" and "c \<in> set cs"
    and "\<not> (vao (heap w c) = None \<and> length (carModels w) > 0)"
  shows "heap (fold placeCar cs w) c = updateCarRotation (heap w c)"
  using assms
proof (induction cs arbitrary: w)
  case Nil
  then show ?case by simp
next
  case (Cons x xs)
  show ?case
  proof (cases "x = c")
    case True
    with Cons.prems(1) have "c \<notin> set xs" by simp
    then have "heap (fold placeCar xs (placeCar c w)) c = heap (placeCar c w) c"
      by (rule fold_placeCar_other)
    with True placeCar_old [OF Cons.prems(3)] show ?thesis by simp
  next
    case False
    with Cons.prems have in_xs: "c \<in> set xs" and d: "distinct xs" by simp_all
    from False have same: "heap (placeCar x w) c = heap w c" by (simp add: placeCar_heap_other)
    with Cons.prems(3)
    have "\<not> (vao (heap (placeCar x w) c) = None \<and> length (carModels (placeCar x w)) > 0)" by simp
    from Cons.IH [OF d in_xs this] same show ?thesis by simp
  qed
qed

lemma updateCars_rotation:
  assumes "distinct (cars w)" and "c \<in> set (cars w)"
    and "\<not> (vao (heap w c) = None \<and> length (carModels w) > 0)"
  shows "heap (updateCars w) c = updateCarRotation (heap w c)"
proof -
  let ?w0 = "w\<lparr>sceneObjects := filter (\<lambda>obj. oid (heap w obj) \<notin> retiredIds w (idsOf w (cars w)) (carsInScene w))
                            (sceneObjects w)\<rparr>"
  have "\<not> (vao (heap ?w0 c) = None \<and> length (carModels ?w0) > 0)" using assms(3) by simp
  from fold_placeCar_rotation [OF assms(1,2) this] show ?thesis
    by (subst updateCars_unfold) simp
qed

lemma updateCars_distinct: "carsDistinct (updateCars w) = carsDistinct w"
  by (simp add: carsDistinct_def carsAllocated_def)

subsection \<open>Cars after \<open>setupObjects\<close>\<close>

lemma setupCar_fields:
  "cars (setupCar bc c w) = cars w" "nextRef (setupCar bc c w) = nextRef w"
  "carModels (setupCar bc c w) = carModels w"
  "oid (heap (setupCar bc c w) r) = oid (heap w r)"
  "vao (heap (setupCar bc c w) c) \<noteq> None"
  "vao (heap w r) \<noteq> None \<Longrightarrow> vao (heap (setupCar bc c w) r) \<noteq> None"
  by (simp_all add: setupCar_def Let_def updateCarRotation_keeps)

lemma fold_setupCar_fields:
  "cars (fold (setupCar bc) cs w) = cars w" "nextRef (fold (setupCar bc) cs w) = nextRef w"
  "oid (heap (fold (setupCar bc) cs w) r) = oid (heap w r)"
  by (induction cs arbitrary: w; simp add: setupCar_fields)+

lemma fold_setupCar_vao:
  "vao (heap w r) \<noteq> None \<Longrightarrow> vao (heap (fold (setupCar bc) cs w) r) \<noteq> None"
proof (induction cs arbitrary: w)
  case Nil
  then show ?case by simp
next
  case (Cons x xs)
  from Cons.prems have "vao (heap (setupCar bc x w) r) \<noteq> None" by (rule setupCar_fields(6))
  from Cons.IH [OF this] show ?case by simp
qed

lemma fold_setupCar_meshed:
  "c \<in> set cs \<Longrightarrow> vao (heap (fold (setupCar bc) cs w) c) \<noteq> None"
proof (induction cs arbitrary: w)
  case Nil
  then show ?case by simp
next
  case (Cons x xs)
  show ?case
  proof (cases "c = x")
    case True
    have "vao (heap (setupCar bc x w) x) \<noteq> None" by (rule setupCar_fields(5))
    then have "vao (heap (fold (setupCar bc) xs (setupCar bc x w)) x) \<noteq> None"
      by (rule fold_setupCar_vao)
    with True show ?thesis by simp
  next
    case False
    with Cons.prems have "c \<in> set xs" by simp
    from Cons.IH [OF this] show ?thesis by simp
  qed
qed

lemma setupCars_ready:
  "carsMeshed (setupCars bc w)" "carsDistinct (setupCars bc w) = carsDistinct w"
proof -
  show "carsMeshed (setupCars bc w)"
    by (simp add: carsMeshed_def setupCars_def fold_setupCar_fields fold_setupCar_meshed)
  show "carsDistinct (setupCars bc w) = carsDistinct w"
    by (simp add: carsDistinct_def carsAllocated_def idsOf_def setupCars_def fold_setupCar_fields)
qed

subsection \<open>The target yaw of a car that was tracked before the poll\<close>

text \<open>
  C5 (as amended). Take a state in which the tracked cars have pairwise different ids
  and every tracked car has its mesh if car models are loaded (\<open>getCars\<close> keeps the
  first, the loop of \<open>setupObjects\<close> over the cars and \<open>updateCars\<close> establish the
  second, and both keep the first), and a car that is tracked in that
  state and that the next snapshot reports. After \<open>getCars\<close> the car has a previous and
  a current position sample; if the snapshot reports it once, these are the position it
  had and the reported position. After \<open>updateCars\<close>: if the displacement between the
  two samples exceeds 0.01 along x or along z, the target yaw is \<open>atan2(dx, dz)\<close>;
  otherwise the target yaw is the one the car had before the poll. Nothing is stated
  about a car that the snapshot introduces.
\<close>

theorem updateCars_target_yaw:
  assumes "carsDistinct w" and "carsMeshed w"
    and "car \<in> set (cars w)" and "oid (heap w car) \<in> cid ` set positions"
    and "w1 = getCars (Ok positions) w" and "w2 = updateCars w1"
    and "oldPosArray (heap w1 car) = Some (ox, oy, oz)" and "position (heap w1 car) = (px, py, pz)"
  shows "carsDistinct w2 \<and> carsMeshed w2 \<and> car \<in> set (cars w2)
       \<and> oldPosArray (heap w2 car) = Some (ox, oy, oz) \<and> position (heap w2 car) = (px, py, pz)
       \<and> (filter (\<lambda>c. cid c = oid (heap w car)) positions = [p] \<longrightarrow>
            (ox, oy, oz) = position (heap w car) \<and> (px, py, pz) = (cx p, cy p, cz p))
       \<and> (\<bar>px - ox\<bar> > 0.01 \<or> \<bar>pz - oz\<bar> > 0.01 \<longrightarrow>
            targetRotY (heap w2 car) = Some (atan2 (px - ox) (pz - oz)))
       \<and> (\<not> (\<bar>px - ox\<bar> > 0.01 \<or> \<bar>pz - oz\<bar> > 0.01) \<longrightarrow>
            targetRotY (heap w2 car) = targetRotY (heap w car))"
proof -
  note t = getCars_tracked [OF assms(1,3,4)]
  have d1: "carsDistinct w1" unfolding assms(5) using assms(1) by (rule getCars_distinct)
  then have "distinct (map (\<lambda>r. oid (heap w1 r)) (cars w1))" by (simp add: carsDistinct_def idsOf_def)
  then have dist: "distinct (cars w1)" by (simp add: distinct_map)
  have mem: "car \<in> set (cars w1)" unfolding assms(5) by (rule t(1))
  have "vao (heap w1 car) = vao (heap w car)" unfolding assms(5) by (rule t(4))
  moreover have "carModels w1 = carModels w" unfolding assms(5) by (rule getCars_others)
  ultimately have old: "\<not> (vao (heap w1 car) = None \<and> length (carModels w1) > 0)"
    using assms(2,3) by (auto simp: carsMeshed_def)
  have h: "heap w2 car = updateCarRotation (heap w1 car)"
    unfolding assms(6) using dist mem old by (rule updateCars_rotation)
  have a: "carsDistinct w2" unfolding assms(6) using d1 by (simp add: updateCars_distinct)
  have b: "carsMeshed w2" unfolding assms(6) by (rule updateCars_meshed)
  have c: "car \<in> set (cars w2)" unfolding assms(6) using mem by simp
  have s: "oldPosArray (heap w2 car) = Some (ox, oy, oz) \<and> position (heap w2 car) = (px, py, pz)"
    unfolding h using assms(7,8) by (simp add: updateCarRotation_samples)
  have once: "filter (\<lambda>c. cid c = oid (heap w car)) positions = [p] \<longrightarrow>
            (ox, oy, oz) = position (heap w car) \<and> (px, py, pz) = (cx p, cy p, cz p)"
  proof
    assume "filter (\<lambda>c. cid c = oid (heap w car)) positions = [p]"
    from t(5) [OF this] assms(7,8) show "(ox, oy, oz) = position (heap w car) \<and> (px, py, pz) = (cx p, cy p, cz p)"
      unfolding assms(5) by simp
  qed
  have moved: "\<bar>px - ox\<bar> > 0.01 \<or> \<bar>pz - oz\<bar> > 0.01 \<longrightarrow>
            targetRotY (heap w2 car) = Some (atan2 (px - ox) (pz - oz))"
    unfolding h using updateCarRotation_cases(1) [OF assms(7,8)] by blast
  have still: "\<not> (\<bar>px - ox\<bar> > 0.01 \<or> \<bar>pz - oz\<bar> > 0.01) \<longrightarrow>
            targetRotY (heap w2 car) = targetRotY (heap w car)"
  proof
    assume "\<not> (\<bar>px - ox\<bar> > 0.01 \<or> \<bar>pz - oz\<bar> > 0.01)"
    from updateCarRotation_cases(2) [OF assms(7,8) this] have "heap w2 car = heap w1 car"
      unfolding h .
    then show "targetRotY (heap w2 car) = targetRotY (heap w car)"
      using t(3) unfolding assms(5) by simp
  qed
  from a b c s once moved still show ?thesis by blast
qed

lemma firstSample_facts:
  "cars firstSample = [0]" "nextRef firstSample = 1" "oid (heap firstSample 0) = ''c1''"
  "position (heap firstSample 0) = (0, 0, 0)" "vao (heap firstSample 0) = Some 1"
  "targetRotY (heap firstSample 0) = Some 0"
  by (simp_all add: firstSample_def startWorld_def emptyWorld_def getCars_def trackCar_def carAt_def
      Object3D_def posArray_def alloc_def setupCars_def setupCar_def addObject_def idsOf_def
      updateCarRotation_def randomCarModel_def demoModels_def Let_def)

lemma firstSample_ready: "carsDistinct firstSample" "carsMeshed firstSample"
proof -
  have "carsDistinct startWorld"
    by (simp add: carsDistinct_def carsAllocated_def idsOf_def startWorld_def emptyWorld_def)
  then show "carsDistinct firstSample"
    unfolding firstSample_def by (simp add: setupCars_ready(2) getCars_distinct)
  show "carsMeshed firstSample" unfolding firstSample_def by (rule setupCars_ready(1))
qed

lemma stationaryCar_unfold:
  "stationaryCar = updateCars (getCars (Ok [carAt ''c1'' 1 0 (Some ''Up'')]) movedCar)"
  by (simp add: stationaryCar_def movedCar_def firstSample_def)

theorem updateCars_target_yaw_witness:
  "carsDistinct firstSample \<and> carsMeshed firstSample \<and> 0 \<in> set (cars firstSample)
   \<and> position (heap firstSample 0) = (0, 0, 0)
   \<and> oldPosArray (heap (getCars (Ok [carAt ''c1'' 1 0 (Some ''Right'')]) firstSample) 0) = Some (0, 0, 0)
   \<and> position (heap (getCars (Ok [carAt ''c1'' 1 0 (Some ''Right'')]) firstSample) 0) = (1, 0, 0)
   \<and> \<bar>1 - 0 :: real\<bar> > 0.01
   \<and> targetRotY (heap movedCar 0) = Some (pi / 2)
   \<and> carsDistinct movedCar \<and> carsMeshed movedCar \<and> 0 \<in> set (cars movedCar)
   \<and> oldPosArray (heap (getCars (Ok [carAt ''c1'' 1 0 (Some ''Up'')]) movedCar) 0) = Some (1, 0, 0)
   \<and> position (heap (getCars (Ok [carAt ''c1'' 1 0 (Some ''Up'')]) movedCar) 0) = (1, 0, 0)
   \<and> \<not> (\<bar>1 - 1 :: real\<bar> > 0.01 \<or> \<bar>0 - 0 :: real\<bar> > 0.01)
   \<and> targetRotY (heap stationaryCar 0) = Some (pi / 2)"
proof -
  let ?right = "[carAt ''c1'' 1 0 (Some ''Right'')]"
  let ?up = "[carAt ''c1'' 1 0 (Some ''Up'')]"
  note f = firstSample_facts
  have m0: "0 \<in> set (cars firstSample)" by (simp add: f)
  have r0: "oid (heap firstSample 0) \<in> cid ` set ?right" by (simp add: f carAt_def)
  have o0: "filter (\<lambda>c. cid c = oid (heap firstSample 0)) ?right = [carAt ''c1'' 1 0 (Some ''Right'')]"
    by (simp add: f carAt_def)
  from getCars_tracked(5) [OF firstSample_ready(1) m0 r0 o0]
  have s0: "oldPosArray (heap (getCars (Ok ?right) firstSample) 0) = Some (0, 0, 0)"
    and p0: "position (heap (getCars (Ok ?right) firstSample) 0) = (1, 0, 0)"
    by (simp_all add: f carAt_def)
  note A = updateCars_target_yaw [OF firstSample_ready m0 r0 refl refl s0 p0]
  have big: "\<bar>1 - 0 :: real\<bar> > 0.01" by simp
  from A have d1: "carsDistinct movedCar" and c1: "carsMeshed movedCar"
    and m1: "0 \<in> set (cars movedCar)" and pos1: "position (heap movedCar 0) = (1, 0, 0)"
    unfolding movedCar_def by blast+
  from A big have "targetRotY (heap movedCar 0) = Some (atan2 (1 - 0) (0 - 0))"
    unfolding movedCar_def by blast
  then have yaw1: "targetRotY (heap movedCar 0) = Some (pi / 2)" by (simp add: atan2_def)
  have lt0: "0 < nextRef firstSample" by (simp add: f)
  have i1: "oid (heap movedCar 0) = ''c1''"
    unfolding movedCar_def updateCars_oid
    using getCars_insensitive(2) [of oid 0 firstSample "Ok ?right", OF _ lt0] by (simp add: f)
  have r1: "oid (heap movedCar 0) \<in> cid ` set ?up" by (simp add: i1 carAt_def)
  have o1: "filter (\<lambda>c. cid c = oid (heap movedCar 0)) ?up = [carAt ''c1'' 1 0 (Some ''Up'')]"
    by (simp add: i1 carAt_def)
  from getCars_tracked(5) [OF d1 m1 r1 o1]
  have s1: "oldPosArray (heap (getCars (Ok ?up) movedCar) 0) = Some (1, 0, 0)"
    and p1: "position (heap (getCars (Ok ?up) movedCar) 0) = (1, 0, 0)"
    by (simp_all add: pos1 carAt_def)
  note B = updateCars_target_yaw [OF d1 c1 m1 r1 refl refl s1 p1]
  have small: "\<not> (\<bar>1 - 1 :: real\<bar> > 0.01 \<or> \<bar>0 - 0 :: real\<bar> > 0.01)" by simp
  from B small have "targetRotY (heap stationaryCar 0) = targetRotY (heap movedCar 0)"
    unfolding stationaryCar_unfold by blast
  with yaw1 have yaw2: "targetRotY (heap stationaryCar 0) = Some (pi / 2)" by simp
  from firstSample_ready m0 f(4) s0 p0 big yaw1 d1 c1 m1 s1 p1 small yaw2
  show ?thesis by (intro conjI)
qed

lemma stationaryCar_facts:
  "cars stationaryCar = [0] \<and> oldPosArray (heap stationaryCar 0) = Some (1, 0, 0)
   \<and> position (heap stationaryCar 0) = (1, 0, 0)
   \<and> direction (heap stationaryCar 0) = Some ''Up''
   \<and> targetRotY (heap stationaryCar 0) = Some (pi / 2)"
  by (simp add: stationaryCar_def startWorld_def emptyWorld_def getCars_def trackCar_def carAt_def
      Object3D_def posArray_def alloc_def setupCars_def setupCar_def updateCars_def placeCar_def
      retireCar_def carsInScene_def hasCarVAO_def idsOf_def addObject_def removeObject_def
      updateCarRotation_def atan2_def randomCarModel_def demoModels_def Let_def)

text \<open>
  C5 as stated fails for a car that stands still: in \<open>stationaryCar\<close> the car did not
  move during the last tick and reports heading \<open>Up\<close>, yet its target yaw is still the
  \<open>\<pi>/2\<close> of its earlier move along x, not the \<open>\<pi>\<close> of the table.
\<close>

theorem updateCarRotation_stationary_counterexample:
  "oldPosArray (heap stationaryCar 0) = Some (1, 0, 0) \<and> position (heap stationaryCar 0) = (1, 0, 0)
   \<and> direction (heap stationaryCar 0) = Some ''Up'' \<and> DIRECTION_ROTATIONS ''Up'' = Some pi
   \<and> targetRotY (heap stationaryCar 0) = Some (pi / 2)
   \<and> targetRotY (heap stationaryCar 0) \<noteq> DIRECTION_ROTATIONS ''Up''"
proof -
  have "DIRECTION_ROTATIONS ''Up'' = Some pi" by (simp add: DIRECTION_ROTATIONS_def)
  moreover have "pi / 2 \<noteq> pi" by simp
  ultimately show ?thesis using stationaryCar_facts by simp
qed

text \<open>
  A car that a snapshot introduces is not covered above. \<open>getCars\<close> stores its position
  as its previous sample too, so \<open>updateCarRotation\<close> sees no movement and never reaches
  the direction table, which its comment reserves for new cars without a previous
  position: the car keeps the target yaw 0 that \<open>updateCars\<close> has just assigned,
  whatever heading the server reports.
\<close>

lemma new_car_ignores_heading:
  "cars newCar = [0] \<and> direction (heap newCar 0) = Some ''Up''
   \<and> oldPosArray (heap newCar 0) = Some (0, 0, 0) \<and> position (heap newCar 0) = (0, 0, 0)
   \<and> DIRECTION_ROTATIONS ''Up'' = Some pi \<and> targetRotY (heap newCar 0) = Some 0"
  by (simp add: newCar_def startWorld_def emptyWorld_def getCars_def trackCar_def carAt_def
      Object3D_def posArray_def alloc_def updateCars_def placeCar_def
      retireCar_def carsInScene_def hasCarVAO_def idsOf_def addObject_def
      updateCarRotation_def randomCarModel_def demoModels_def DIRECTION_ROTATIONS_def Let_def)

section \<open>Traffic lights and their indicator spheres over a run\<close>

subsection \<open>Operations on cars leave the lights alone\<close>

lemma lightFields_eq:
  assumes "lightFields a = lightFields b"
  shows "oid a = oid b" "state a = state b" "lightShows on a = lightShows on b"
    "sphereShows on a = sphereShows on b"
  using assms by (simp_all add: lightFields_def lightShows_def sphereShows_def)

lemma keepsLights_refl: "keepsLights w w"
  by (simp add: keepsLights_def)

lemma keepsLights_trans:
  assumes "keepsLights w v" and "keepsLights v u"
  shows "keepsLights w u"
proof -
  from assms have le: "nextRef w \<le> nextRef v" "nextRef v \<le> nextRef u"
    by (simp_all add: keepsLights_def)
  have "lightFields (heap u r) = lightFields (heap w r)" if "r < nextRef w" for r
  proof -
    from that le have "r < nextRef v" by simp
    with assms that show ?thesis by (simp add: keepsLights_def)
  qed
  with assms le show ?thesis by (simp add: keepsLights_def)
qed










lemma keepsLights_ids:
  assumes "keepsLights w v" and "\<forall>l \<in> set ls. l < nextRef w"
  shows "idsOf v ls = idsOf w ls"
proof -
  have "oid (heap v l) = oid (heap w l)" if "l \<in> set ls" for l
  proof -
    from assms that have "lightFields (heap v l) = lightFields (heap w l)"
      by (simp add: keepsLights_def)
    then show ?thesis by (rule lightFields_eq(1))
  qed
  then show ?thesis by (simp add: idsOf_def)
qed





subsection \<open>A snapshot applied to lights that are tracked\<close>




subsection \<open>The spheres after \<open>updateTrafficLightSpheres\<close>\<close>




subsection \<open>Population and \<open>setupObjects\<close>\<close>







subsection \<open>A poll and a whole frame\<close>












section \<open>The model cache\<close>

subsection \<open>Hits, misses and the invariant of the cache\<close>








subsection \<open>Colours without a material\<close>














end
